theory Spec2Isabelle
  imports Main "HOL-Library.Sublist" "HOL-Library.AList" "HOL-Library.Char_ord"
    "HOL-Library.List_Lexorder"
begin

section \<open>JSON documents\<close>

text \<open>
  The transform works on what \<^verbatim>\<open>json.load\<close> returns: \<^verbatim>\<open>None\<close>, booleans, integers,
  floats, strings, lists and dicts with string keys. A dict is an association list in
  insertion order; \<^verbatim>\<open>json.load\<close> never yields a repeated key. A float is carried as the text
  Python's \<^verbatim>\<open>repr\<close> prints for it, which is all the transform ever asks of a float (its
  truth value and its \<^verbatim>\<open>str\<close>). A \<^typ>\<open>char\<close> stands for one code point below 256, so the
  strings of the model are Python's strings over Latin-1.

  A loaded document is a tree: no dict or list stands in two places. So a mutation in
  place is modelled by returning the new value, and the functions below take the old
  document and return the new one. The document is taken to be no deeper than Python's
  recursion limit allows the rewriter to follow.
\<close>

datatype json =
    JNull
  | JBool bool
  | JInt int
  | JFloat string
  | JStr string
  | JArr "json list"
  | JObj "(string \<times> json) list"

type_synonym dict = "(string \<times> json) list"

type_synonym smap = "string \<rightharpoonup> string"

datatype error = AttributeError | TypeError

text \<open>\<^verbatim>\<open>d.get(k)\<close>: the value stored under \<open>k\<close>, \<^verbatim>\<open>None\<close> when the key is missing.\<close>

definition dict_get :: "dict \<Rightarrow> string \<Rightarrow> json" where
  "dict_get d k = (case map_of d k of None \<Rightarrow> JNull | Some v \<Rightarrow> v)"

section \<open>Constants\<close>

definition URN_SYSTEM :: string where
  "URN_SYSTEM = ''urn:ietf:rfc:3986''"

definition URN_PREFIX :: string where
  "URN_PREFIX = ''urn:uuid:''"

section \<open>Strings as Python treats them\<close>

text \<open>
  \<^verbatim>\<open>str.isspace\<close> on one character, which is also what \<^verbatim>\<open>\s\<close> matches in a \<^verbatim>\<open>str\<close>
  pattern: TAB, LF, VT, FF, CR, the separators 0x1C to 0x1F, the space, NEL and the
  no-break space.
\<close>

definition is_space :: "char \<Rightarrow> bool" where
  "is_space c \<longleftrightarrow> c \<in> {CHR 0x09, CHR 0x0A, CHR 0x0B, CHR 0x0C, CHR 0x0D,
     CHR 0x1C, CHR 0x1D, CHR 0x1E, CHR 0x1F, CHR 0x20, CHR 0x85, CHR 0xA0}"

definition is_quote :: "char \<Rightarrow> bool" where
  "is_quote c \<longleftrightarrow> c = CHR 0x22 \<or> c = CHR 0x27"

text \<open>\<^verbatim>\<open>s.strip(...)\<close>: drop the characters of the class from the left, then from the right.\<close>

definition py_strip :: "(char \<Rightarrow> bool) \<Rightarrow> string \<Rightarrow> string" where
  "py_strip P s = rev (dropWhile P (rev (dropWhile P s)))"

definition startswith :: "string \<Rightarrow> string \<Rightarrow> bool" where
  "startswith s p \<longleftrightarrow> prefix p s"

text \<open>
  \<^verbatim>\<open>re.sub(r"\s+", "-", s)\<close>: scanning from the left, a whitespace character starts a
  match, which is greedy and so takes the whole run; the run is replaced by one hyphen.
\<close>

function re_sub_ws :: "string \<Rightarrow> string" where
  "re_sub_ws [] = []"
| "re_sub_ws (c # cs) =
     (if is_space c then CHR ''-'' # re_sub_ws (dropWhile is_space cs)
      else c # re_sub_ws cs)"
  by pat_completeness auto
termination
  by (relation "measure length") (auto simp: length_dropWhile_le less_Suc_eq_le)

section \<open>Python's truth values and \<^verbatim>\<open>str\<close>\<close>

text \<open>The truth value of a JSON value, as \<^verbatim>\<open>if x\<close> and \<^verbatim>\<open>x or y\<close> test it.\<close>

fun truthy :: "json \<Rightarrow> bool" where
  "truthy JNull = False"
| "truthy (JBool b) = b"
| "truthy (JInt i) = (i \<noteq> 0)"
| "truthy (JFloat r) = (r \<noteq> ''0.0'' \<and> r \<noteq> ''-0.0'')"
| "truthy (JStr s) = (s \<noteq> [])"
| "truthy (JArr xs) = (xs \<noteq> [])"
| "truthy (JObj kvs) = (kvs \<noteq> [])"

text \<open>A list or a dict cannot be hashed: it cannot be (part of) a dict key.\<close>

fun hashable :: "json \<Rightarrow> bool" where
  "hashable (JArr xs) = False"
| "hashable (JObj kvs) = False"
| "hashable j = True"

definition digit_char :: "nat \<Rightarrow> char" where
  "digit_char n = ''0123456789abcdef'' ! n"

fun nat_digits :: "nat \<Rightarrow> string" where
  "nat_digits n = (if n < 10 then [digit_char n] else nat_digits (n div 10) @ [digit_char (n mod 10)])"

declare nat_digits.simps [simp del]

definition int_str :: "int \<Rightarrow> string" where
  "int_str i = (if i < 0 then CHR ''-'' # nat_digits (nat (- i)) else nat_digits (nat i))"

text \<open>
  \<^verbatim>\<open>repr\<close> of a string: double quotes when the string has a single quote and no double
  quote, single quotes otherwise; the quote and the backslash escaped, TAB, LF and CR by
  name, every other character that is not printable as \<^verbatim>\<open>\xNN\<close>.
\<close>

definition py_printable :: "char \<Rightarrow> bool" where
  "py_printable c \<longleftrightarrow>
     (32 \<le> (of_char c :: nat) \<and> (of_char c :: nat) < 127) \<or>
     (161 \<le> (of_char c :: nat) \<and> (of_char c :: nat) \<noteq> 173)"

definition repr_char :: "char \<Rightarrow> char \<Rightarrow> string" where
  "repr_char q c =
     (if c = q \<or> c = CHR 0x5C then [CHR 0x5C, c]
      else if c = CHR 0x09 then [CHR 0x5C, CHR ''t'']
      else if c = CHR 0x0A then [CHR 0x5C, CHR ''n'']
      else if c = CHR 0x0D then [CHR 0x5C, CHR ''r'']
      else if py_printable c then [c]
      else [CHR 0x5C, CHR ''x'', digit_char (of_char c div 16), digit_char (of_char c mod 16)])"

definition repr_str :: "string \<Rightarrow> string" where
  "repr_str s =
     (let q = (if CHR 0x27 \<in> set s \<and> CHR 0x22 \<notin> set s then CHR 0x22 else CHR 0x27)
      in q # concat (map (repr_char q) s) @ [q])"

fun join :: "string \<Rightarrow> string list \<Rightarrow> string" where
  "join sep [] = []"
| "join sep [x] = x"
| "join sep (x # y # ys) = x @ sep @ join sep (y # ys)"

fun py_repr :: "json \<Rightarrow> string"
  and py_repr_items :: "dict \<Rightarrow> string list"
  and py_repr_elems :: "json list \<Rightarrow> string list"
where
  "py_repr JNull = ''None''"
| "py_repr (JBool b) = (if b then ''True'' else ''False'')"
| "py_repr (JInt i) = int_str i"
| "py_repr (JFloat r) = r"
| "py_repr (JStr s) = repr_str s"
| "py_repr (JArr xs) = ''['' @ join '', '' (py_repr_elems xs) @ '']''"
| "py_repr (JObj kvs) = ''{'' @ join '', '' (py_repr_items kvs) @ ''}''"
| "py_repr_items [] = []"
| "py_repr_items ((k, v) # kvs) = (repr_str k @ '': '' @ py_repr v) # py_repr_items kvs"
| "py_repr_elems [] = []"
| "py_repr_elems (x # xs) = py_repr x # py_repr_elems xs"

text \<open>\<^verbatim>\<open>str(x)\<close>, which is what an f-string puts for \<^verbatim>\<open>{x}\<close>.\<close>

definition py_str :: "json \<Rightarrow> string" where
  "py_str j = (case j of JStr s \<Rightarrow> s | _ \<Rightarrow> py_repr j)"

section \<open>The identifier generator\<close>

text \<open>
  \<^verbatim>\<open>gen_uuid\<close> draws a random version-4 UUID. The model takes the draws as a sequence
  \<open>gen\<close> and counts the calls: the call number \<open>n\<close> of a run returns \<open>gen n\<close>, and the
  functions that call it take the count and return the new one.
\<close>

definition to_urn :: "json \<Rightarrow> string" where
  "to_urn u = URN_PREFIX @ py_str u"

text \<open>What \<^verbatim>\<open>str(uuid.uuid4())\<close> looks like: 8-4-4-4-12 lower-case hexadecimal digits,
  the version digit 4 and the variant digit 8, 9, a or b.\<close>

definition is_hex :: "char \<Rightarrow> bool" where
  "is_hex c \<longleftrightarrow> c \<in> set ''0123456789abcdef''"

definition is_uuid4 :: "string \<Rightarrow> bool" where
  "is_uuid4 u \<longleftrightarrow>
     length u = 36 \<and>
     list_all (\<lambda>i. if i \<in> {8, 13, 18, 23} then u ! i = CHR ''-'' else is_hex (u ! i)) [0..<36] \<and>
     u ! 14 = CHR ''4'' \<and> u ! 19 \<in> set ''89ab''"

section \<open>The sanitizer\<close>

definition sanitize_ref_string :: "string \<Rightarrow> string" where
  "sanitize_ref_string s =
     (let s2 = py_strip is_quote (py_strip is_space s) in
      if startswith s2 URN_PREFIX \<or> startswith s2 ''#'' then s2
      else re_sub_ws s2)"

section \<open>The reference pattern\<close>

text \<open>
  \<^verbatim>\<open>REF_RE = ^(?:https?://[^/]+/[^/]+/)?([A-Za-z][A-Za-z0-9]+)/([A-Za-z0-9\-\.]{1,64})$\<close>,
  read from the left as the matcher tries it. Each repetition is followed by a
  character outside its class (or by the end), so only its longest match can succeed:
  the matcher is written with the longest match and needs no other backtracking than
  dropping the optional base.
\<close>

definition is_alpha :: "char \<Rightarrow> bool" where
  "is_alpha c \<longleftrightarrow> c \<in> set ''ABCDEFGHIJKLMNOPQRSTUVWXYZabcdefghijklmnopqrstuvwxyz''"

definition is_alnum :: "char \<Rightarrow> bool" where
  "is_alnum c \<longleftrightarrow> is_alpha c \<or> c \<in> set ''0123456789''"

definition is_idchar :: "char \<Rightarrow> bool" where
  "is_idchar c \<longleftrightarrow> is_alnum c \<or> c = CHR ''-'' \<or> c = CHR ''.''"

definition not_slash :: "char \<Rightarrow> bool" where
  "not_slash c \<longleftrightarrow> c \<noteq> CHR ''/''"

text \<open>A literal: the rest of the subject after it, when the subject starts with it.\<close>

definition lit :: "string \<Rightarrow> string \<Rightarrow> string option" where
  "lit p s = (if prefix p s then Some (drop (length p) s) else None)"

text \<open>A class repeated once or more, longest match: the match and the rest.\<close>

definition plus_class :: "(char \<Rightarrow> bool) \<Rightarrow> string \<Rightarrow> (string \<times> string) option" where
  "plus_class P s =
     (if takeWhile P s = [] then None else Some (takeWhile P s, dropWhile P s))"

text \<open>The optional base \<^verbatim>\<open>https?://[^/]+/[^/]+/\<close>: the rest of the subject after it.\<close>

definition match_base :: "string \<Rightarrow> string option" where
  "match_base s =
     (case lit ''http'' s of None \<Rightarrow> None
      | Some r0 \<Rightarrow>
     (case lit ''://'' (case lit ''s'' r0 of Some r \<Rightarrow> r | None \<Rightarrow> r0) of None \<Rightarrow> None
      | Some r1 \<Rightarrow>
     (case plus_class not_slash r1 of None \<Rightarrow> None
      | Some (host, r2) \<Rightarrow>
     (case lit ''/'' r2 of None \<Rightarrow> None
      | Some r3 \<Rightarrow>
     (case plus_class not_slash r3 of None \<Rightarrow> None
      | Some (base, r4) \<Rightarrow> lit ''/'' r4)))))"

text \<open>
  The two groups and the end: \<^verbatim>\<open>([A-Za-z][A-Za-z0-9]+)/([A-Za-z0-9\-\.]{1,64})$\<close>.
  Without \<^verbatim>\<open>re.MULTILINE\<close>, \<^verbatim>\<open>$\<close> matches at the end and before a newline that ends
  the subject.
\<close>

definition match_groups :: "string \<Rightarrow> (string \<times> string) option" where
  "match_groups s =
     (case s of [] \<Rightarrow> None
      | c # r0 \<Rightarrow>
        if \<not> is_alpha c then None
        else
     (case plus_class is_alnum r0 of None \<Rightarrow> None
      | Some (g1, r1) \<Rightarrow>
     (case lit ''/'' r1 of None \<Rightarrow> None
      | Some r2 \<Rightarrow>
     (case plus_class is_idchar r2 of None \<Rightarrow> None
      | Some (g2, r3) \<Rightarrow>
        if length g2 \<le> 64 \<and> (r3 = [] \<or> r3 = [CHR 0x0A]) then Some (c # g1, g2)
        else None))))"

definition REF_RE_match :: "string \<Rightarrow> (string \<times> string) option" where
  "REF_RE_match s =
     (case match_base s of
        None \<Rightarrow> match_groups s
      | Some r \<Rightarrow> (case match_groups r of Some g \<Rightarrow> Some g | None \<Rightarrow> match_groups s))"

section \<open>The reference matcher\<close>

definition map_reference :: "string \<Rightarrow> smap \<Rightarrow> smap \<Rightarrow> string option" where
  "map_reference ref by_fullurl by_typeid_str =
     (let candidate = sanitize_ref_string ref in
      if startswith candidate URN_PREFIX \<or> startswith candidate ''#'' then Some candidate
      else if candidate \<in> dom by_fullurl then by_fullurl candidate
      else
        (case REF_RE_match candidate of
           Some (g1, g2) \<Rightarrow>
             (let key = g1 @ ''/'' @ g2 in
              if key \<in> dom by_typeid_str then by_typeid_str key else None)
         | None \<Rightarrow> None))"

section \<open>The recursive reference rewriter\<close>

text \<open>
  The source mutates the object in place and adds to the set \<open>unknown\<close>; the model
  returns the rewritten object and the grown set. The loop over \<^verbatim>\<open>list(obj.items())\<close> is
  \<open>rewrite_items\<close>, the loop over \<^verbatim>\<open>range(len(obj))\<close> is \<open>rewrite_elems\<close>. An assignment
  \<^verbatim>\<open>obj[k] = mapped\<close> keeps the key's place in the dict.
\<close>

fun rewrite_references :: "json \<Rightarrow> smap \<Rightarrow> smap \<Rightarrow> string set \<Rightarrow> json \<times> string set"
  and rewrite_items :: "dict \<Rightarrow> smap \<Rightarrow> smap \<Rightarrow> string set \<Rightarrow> dict \<times> string set"
  and rewrite_elems :: "json list \<Rightarrow> smap \<Rightarrow> smap \<Rightarrow> string set \<Rightarrow> json list \<times> string set"
where
  "rewrite_references (JObj kvs) bf bt unknown =
     (case rewrite_items kvs bf bt unknown of (kvs', unknown') \<Rightarrow> (JObj kvs', unknown'))"
| "rewrite_references (JArr xs) bf bt unknown =
     (case rewrite_elems xs bf bt unknown of (xs', unknown') \<Rightarrow> (JArr xs', unknown'))"
| "rewrite_references JNull bf bt unknown = (JNull, unknown)"
| "rewrite_references (JBool b) bf bt unknown = (JBool b, unknown)"
| "rewrite_references (JInt i) bf bt unknown = (JInt i, unknown)"
| "rewrite_references (JFloat r) bf bt unknown = (JFloat r, unknown)"
| "rewrite_references (JStr s) bf bt unknown = (JStr s, unknown)"
| "rewrite_items [] bf bt unknown = ([], unknown)"
| "rewrite_items ((k, v) # kvs) bf bt unknown =
     (case
        (case v of
           JStr r \<Rightarrow>
             if k = ''reference'' then
               (case map_reference r bf bt of
                  Some mapped \<Rightarrow> (JStr mapped, unknown)
                | None \<Rightarrow>
                    if \<not> startswith r URN_PREFIX \<and> \<not> startswith r ''#''
                    then (v, insert r unknown) else (v, unknown))
             else rewrite_references v bf bt unknown
         | _ \<Rightarrow> rewrite_references v bf bt unknown)
      of (v', unknown') \<Rightarrow>
        (case rewrite_items kvs bf bt unknown' of
           (kvs', unknown'') \<Rightarrow> ((k, v') # kvs', unknown'')))"
| "rewrite_elems [] bf bt unknown = ([], unknown)"
| "rewrite_elems (x # xs) bf bt unknown =
     (case rewrite_references x bf bt unknown of
        (x', unknown') \<Rightarrow>
          (case rewrite_elems xs bf bt unknown' of
             (xs', unknown'') \<Rightarrow> (x' # xs', unknown'')))"

section \<open>The identifier augmentor\<close>

text \<open>
  A record is mutated in place by the source; the model returns the new dict.
  \<open>AList.update\<close> is Python's \<^verbatim>\<open>d[k] = v\<close>: the value is replaced where the key stands, a
  new key goes to the end.
\<close>

definition ident_of :: "string \<Rightarrow> json" where
  "ident_of urn_value = JObj [(''system'', JStr URN_SYSTEM), (''value'', JStr urn_value)]"

text \<open>The test under \<^verbatim>\<open>any\<close>: a dict whose system and value are the two strings.\<close>

definition same_ident :: "string \<Rightarrow> json \<Rightarrow> bool" where
  "same_ident urn_value x =
     (case x of
        JObj d \<Rightarrow> dict_get d ''system'' = JStr URN_SYSTEM \<and> dict_get d ''value'' = JStr urn_value
      | _ \<Rightarrow> False)"

definition add_identifier :: "dict \<Rightarrow> string \<Rightarrow> dict" where
  "add_identifier resource urn_value =
     (let ident = ident_of urn_value in
      case map_of resource ''identifier'' of
        Some (JArr xs) \<Rightarrow>
          if \<not> list_ex (same_ident urn_value) xs
          then AList.update ''identifier'' (JArr (xs @ [ident])) resource
          else resource
      | Some (JObj d) \<Rightarrow> AList.update ''identifier'' (JArr [JObj d, ident]) resource
      | Some _ \<Rightarrow> AList.update ''identifier'' (JArr [ident]) resource
      | None \<Rightarrow> AList.update ''identifier'' (JArr [ident]) resource)"

section \<open>The identity assignment pass\<close>

record indices =
  by_fullurl :: smap
  by_type_id :: "(json \<times> string) \<rightharpoonup> string"
  by_typeid_str :: smap

definition empty_indices :: indices where
  "empty_indices = \<lparr>by_fullurl = Map.empty, by_type_id = Map.empty, by_typeid_str = Map.empty\<rparr>"

text \<open>
  \<^verbatim>\<open>for e in x\<close>: a list gives its elements, a dict its keys, a string its characters;
  anything else is not iterable.
\<close>

fun py_iter :: "json \<Rightarrow> error + json list" where
  "py_iter (JArr xs) = Inr xs"
| "py_iter (JObj kvs) = Inr (map (\<lambda>kv. JStr (fst kv)) kvs)"
| "py_iter (JStr s) = Inr (map (\<lambda>c. JStr [c]) s)"
| "py_iter j = Inl TypeError"

text \<open>\<^verbatim>\<open>bundle.get("entry", [])\<close> and \<^verbatim>\<open>e.get("resource", {})\<close>.\<close>

definition bundle_entries :: "dict \<Rightarrow> json" where
  "bundle_entries bundle = (case map_of bundle ''entry'' of None \<Rightarrow> JArr [] | Some v \<Rightarrow> v)"

definition entry_resource :: "dict \<Rightarrow> json" where
  "entry_resource e = (case map_of e ''resource'' of None \<Rightarrow> JObj [] | Some r \<Rightarrow> r)"

definition setdefault :: "string \<Rightarrow> json \<Rightarrow> dict \<Rightarrow> dict" where
  "setdefault k v d = (if k \<in> dom (map_of d) then d else d @ [(k, v)])"

text \<open>
  One turn of the loop of \<^verbatim>\<open>collect_uuid_map\<close>. \<^verbatim>\<open>e.get\<close> raises when the entry is not a
  dict, \<^verbatim>\<open>res.get\<close> when the resource is not one, and the tuple key \<^verbatim>\<open>(rtype, old_id)\<close>
  raises when \<open>rtype\<close> cannot be hashed. The index \<open>by_type_id\<close> is written and never read;
  its keys are compared here as JSON values, where Python takes \<^verbatim>\<open>True\<close>, \<^verbatim>\<open>1\<close> and \<^verbatim>\<open>1.0\<close>
  for one key.
\<close>

definition collect_entry ::
  "(nat \<Rightarrow> string) \<Rightarrow> json \<Rightarrow> indices \<Rightarrow> nat \<Rightarrow> error + (json \<times> indices \<times> nat)" where
  "collect_entry gen e0 ix n =
     (case e0 of
        JObj e \<Rightarrow>
          (case entry_resource e of
             JObj res \<Rightarrow>
               (let rtype = dict_get res ''resourceType'';
                    old_id = dict_get res ''id'';
                    new_uuid = JStr (gen n);
                    urn = to_urn new_uuid;
                    ix1 = (case dict_get e ''fullUrl'' of
                             JStr f \<Rightarrow> ix\<lparr>by_fullurl := (by_fullurl ix)(py_strip is_space f \<mapsto> urn)\<rparr>
                           | _ \<Rightarrow> ix)
                in case old_id of
                     JStr oid \<Rightarrow>
                       if truthy rtype then
                         if hashable rtype then
                           Inr (JObj (setdefault ''_generated_uuid'' new_uuid e),
                                ix1\<lparr>by_type_id := (by_type_id ix1)((rtype, oid) \<mapsto> urn),
                                    by_typeid_str :=
                                      (by_typeid_str ix1)(py_str rtype @ ''/'' @ oid \<mapsto> urn)\<rparr>,
                                Suc n)
                         else Inl TypeError
                       else Inr (JObj (setdefault ''_generated_uuid'' new_uuid e), ix1, Suc n)
                   | _ \<Rightarrow> Inr (JObj (setdefault ''_generated_uuid'' new_uuid e), ix1, Suc n))
           | _ \<Rightarrow> Inl AttributeError)
      | _ \<Rightarrow> Inl AttributeError)"

fun collect_loop ::
  "(nat \<Rightarrow> string) \<Rightarrow> json list \<Rightarrow> indices \<Rightarrow> nat \<Rightarrow> error + (json list \<times> indices \<times> nat)" where
  "collect_loop gen [] ix n = Inr ([], ix, n)"
| "collect_loop gen (e # es) ix n =
     (case collect_entry gen e ix n of
        Inl err \<Rightarrow> Inl err
      | Inr (e', ix', n') \<Rightarrow>
          (case collect_loop gen es ix' n' of
             Inl err \<Rightarrow> Inl err
           | Inr (es', ix'', n'') \<Rightarrow> Inr (e' # es', ix'', n'')))"

text \<open>
  The entries are mutated in place (the stashed key), so the pass returns the bundle
  too. Only a list of entries can hold a mutated entry: the keys of a dict and the
  characters of a string are strings, on which the first turn raises.
\<close>

definition store_entries :: "json list \<Rightarrow> dict \<Rightarrow> dict" where
  "store_entries es bundle =
     (case map_of bundle ''entry'' of
        Some (JArr xs) \<Rightarrow> AList.update ''entry'' (JArr es) bundle
      | _ \<Rightarrow> bundle)"

definition collect_uuid_map ::
  "(nat \<Rightarrow> string) \<Rightarrow> dict \<Rightarrow> nat \<Rightarrow> error + (dict \<times> indices \<times> nat)" where
  "collect_uuid_map gen bundle n =
     (case py_iter (bundle_entries bundle) of
        Inl err \<Rightarrow> Inl err
      | Inr entries \<Rightarrow>
          (case collect_loop gen entries empty_indices n of
             Inl err \<Rightarrow> Inl err
           | Inr (es', ix, n') \<Rightarrow> Inr (store_entries es' bundle, ix, n')))"

section \<open>The transform\<close>

text \<open>
  One turn of the second loop of \<^verbatim>\<open>transform_bundle\<close>. When the entry has no resource,
  \<open>res\<close> is a fresh dict that the entry does not hold: it is augmented and rewritten as
  the source does, and then dropped.
\<close>

definition rewrite_entry ::
  "(nat \<Rightarrow> string) \<Rightarrow> indices \<Rightarrow> json \<Rightarrow> nat \<Rightarrow> string set \<Rightarrow>
     error + (json \<times> nat \<times> string set)" where
  "rewrite_entry gen ix e0 n unknown =
     (case e0 of
        JObj e \<Rightarrow>
          (case entry_resource e of
             JObj res \<Rightarrow>
               (let stash = dict_get e ''_generated_uuid'';
                    new_uuid = (if truthy stash then stash else JStr (gen n));
                    n' = (if truthy stash then n else Suc n);
                    urn = to_urn new_uuid;
                    e1 = AList.update ''fullUrl'' (JStr urn) e;
                    res1 = AList.update ''id'' new_uuid res;
                    res2 = add_identifier res1 urn
                in case rewrite_references (JObj res2) (by_fullurl ix) (by_typeid_str ix) unknown of
                     (res3, unknown') \<Rightarrow>
                       (let e2 = (if ''resource'' \<in> dom (map_of e)
                                  then AList.update ''resource'' res3 e1 else e1)
                        in Inr (JObj (AList.delete ''_generated_uuid'' e2), n', unknown')))
           | _ \<Rightarrow> Inl AttributeError)
      | _ \<Rightarrow> Inl AttributeError)"

fun rewrite_loop ::
  "(nat \<Rightarrow> string) \<Rightarrow> indices \<Rightarrow> json list \<Rightarrow> nat \<Rightarrow> string set \<Rightarrow>
     error + (json list \<times> nat \<times> string set)" where
  "rewrite_loop gen ix [] n unknown = Inr ([], n, unknown)"
| "rewrite_loop gen ix (e # es) n unknown =
     (case rewrite_entry gen ix e n unknown of
        Inl err \<Rightarrow> Inl err
      | Inr (e', n', unknown') \<Rightarrow>
          (case rewrite_loop gen ix es n' unknown' of
             Inl err \<Rightarrow> Inl err
           | Inr (es', n'', unknown'') \<Rightarrow> Inr (e' # es', n'', unknown'')))"

text \<open>The bundle's own id and identifier, step 0 of \<^verbatim>\<open>transform_bundle\<close>.\<close>

definition assign_bundle_id :: "string \<Rightarrow> dict \<Rightarrow> dict" where
  "assign_bundle_id bundle_uuid bundle =
     (let b1 = AList.update ''id'' (JStr bundle_uuid) bundle;
          bund_ident = ident_of (to_urn (JStr bundle_uuid))
      in case map_of b1 ''identifier'' of
           Some (JObj d) \<Rightarrow> AList.update ''identifier'' (JArr [JObj d, bund_ident]) b1
         | Some (JArr xs) \<Rightarrow> AList.update ''identifier'' (JArr (xs @ [bund_ident])) b1
         | Some _ \<Rightarrow> AList.update ''identifier'' (JArr [bund_ident]) b1
         | None \<Rightarrow> AList.update ''identifier'' bund_ident b1)"

text \<open>
  The warning written to the standard error stream: nothing when no reference is
  unresolved, else the header and the unresolved references in sorted order, and the
  newline that \<^verbatim>\<open>print\<close> ends with.
\<close>

definition warning :: "string set \<Rightarrow> string option" where
  "warning unknown_refs =
     (if unknown_refs = {} then None
      else Some (''[WARN] The following references could not be resolved to entries in the bundle and were left as-is:'' @
                 [CHR 0x0A] @ ''  - '' @
                 join ([CHR 0x0A] @ ''  - '') (sorted_list_of_set unknown_refs) @ [CHR 0x0A]))"

record run =
  doc :: json
  unknown_refs :: "string set"
  stderr :: "string option"

definition transform_bundle :: "(nat \<Rightarrow> string) \<Rightarrow> dict \<Rightarrow> error + run" where
  "transform_bundle gen bundle =
     (let b0 = assign_bundle_id (gen 0) bundle in
      case collect_uuid_map gen b0 1 of
        Inl err \<Rightarrow> Inl err
      | Inr (b1, ix, n) \<Rightarrow>
          (case py_iter (bundle_entries b1) of
             Inl err \<Rightarrow> Inl err
           | Inr entries \<Rightarrow>
               (case rewrite_loop gen ix entries n {} of
                  Inl err \<Rightarrow> Inl err
                | Inr (es', n', unknown) \<Rightarrow>
                    (case rewrite_references (JObj (store_entries es' b1))
                            (by_fullurl ix) (by_typeid_str ix) unknown of
                       (b2, unknown') \<Rightarrow>
                         Inr \<lparr>doc = b2, unknown_refs = unknown', stderr = warning unknown'\<rparr>))))"

section \<open>The sanitizer as the specification words it\<close>

text \<open>
  The specification gives the sanitizer as three rules applied in order. They are written
  here from its words, apart from the code: trimming keeps the slice of the string from
  its first to its last character outside the class; collapsing cuts the string into its
  maximal runs of whitespace and of other characters, and puts one hyphen for each run
  of whitespace.
\<close>

definition spec_trim :: "(char \<Rightarrow> bool) \<Rightarrow> string \<Rightarrow> string" where
  "spec_trim P s =
     (let i = length (takeWhile P s);
          j = length s - length (takeWhile P (rev s))
      in take (j - i) (drop i s))"

function spec_runs :: "(char \<Rightarrow> bool) \<Rightarrow> string \<Rightarrow> string list" where
  "spec_runs P [] = []"
| "spec_runs P (c # cs) =
     (if P c then (c # takeWhile P cs) # spec_runs P (dropWhile P cs)
      else (c # takeWhile (\<lambda>x. \<not> P x) cs) # spec_runs P (dropWhile (\<lambda>x. \<not> P x) cs))"
  by pat_completeness auto
termination
  by (relation "measure (\<lambda>(P, s). length s)") (auto simp: length_dropWhile_le less_Suc_eq_le)

definition spec_collapse :: "string \<Rightarrow> string" where
  "spec_collapse s =
     concat (map (\<lambda>r. if is_space (hd r) then ''-'' else r) (spec_runs is_space s))"

definition sanitize_spec :: "string \<Rightarrow> string" where
  "sanitize_spec s =
     (let t = spec_trim is_quote (spec_trim is_space s) in
      if prefix URN_PREFIX t \<or> prefix ''#'' t then t else spec_collapse t)"

section \<open>Observing a document\<close>

text \<open>
  A field of a document is named by its path from the root: a key steps into a dict,
  an index into a list. \<open>jget\<close> reads the value at a path.
\<close>

datatype step = Key string | Idx nat

fun jget :: "json \<Rightarrow> step list \<Rightarrow> json option" where
  "jget j [] = Some j"
| "jget (JObj kvs) (Key k # p) = (case map_of kvs k of None \<Rightarrow> None | Some v \<Rightarrow> jget v p)"
| "jget (JArr xs) (Idx i # p) = (if i < length xs then jget (xs ! i) p else None)"
| "jget j (s # p) = None"

text \<open>The value at a path of the document that the transform returns; nothing when the
  transform raises.\<close>

definition field_after :: "(nat \<Rightarrow> string) \<Rightarrow> dict \<Rightarrow> step list \<Rightarrow> json option" where
  "field_after gen bundle p =
     (case transform_bundle gen bundle of Inr r \<Rightarrow> jget (doc r) p | Inl err \<Rightarrow> None)"

text \<open>
  The shape of the rewriter with the bookkeeping of the unresolved set taken away: a
  function applied to every string stored under the key \<^verbatim>\<open>reference\<close>, everything else
  kept. \<open>blank_refs\<close> wipes those strings, so two documents have the same \<open>blank_refs\<close>
  exactly when they differ in nothing but such strings. \<open>resolve\<close> is what one pass of the
  rewriter does to one such string.
\<close>

fun map_refs :: "(string \<Rightarrow> string) \<Rightarrow> json \<Rightarrow> json"
  and map_refs_items :: "(string \<Rightarrow> string) \<Rightarrow> dict \<Rightarrow> dict"
  and map_refs_elems :: "(string \<Rightarrow> string) \<Rightarrow> json list \<Rightarrow> json list"
where
  "map_refs f (JObj kvs) = JObj (map_refs_items f kvs)"
| "map_refs f (JArr xs) = JArr (map_refs_elems f xs)"
| "map_refs f JNull = JNull"
| "map_refs f (JBool b) = JBool b"
| "map_refs f (JInt i) = JInt i"
| "map_refs f (JFloat r) = JFloat r"
| "map_refs f (JStr s) = JStr s"
| "map_refs_items f [] = []"
| "map_refs_items f ((k, v) # kvs) =
     (k, case v of
           JStr r \<Rightarrow> if k = ''reference'' then JStr (f r) else v
         | _ \<Rightarrow> map_refs f v) # map_refs_items f kvs"
| "map_refs_elems f [] = []"
| "map_refs_elems f (x # xs) = map_refs f x # map_refs_elems f xs"

definition blank_refs :: "json \<Rightarrow> json" where
  "blank_refs = map_refs (\<lambda>r. [])"

definition resolve :: "smap \<Rightarrow> smap \<Rightarrow> string \<Rightarrow> string" where
  "resolve bf bt r = (case map_reference r bf bt of Some m \<Rightarrow> m | None \<Rightarrow> r)"

text \<open>Trimming at the right end only: what \<^verbatim>\<open>strip\<close> does to a string whose first
  character stays.\<close>

definition strip_right :: "(char \<Rightarrow> bool) \<Rightarrow> string \<Rightarrow> string" where
  "strip_right P s = rev (dropWhile P (rev s))"

section \<open>Fields that the transform replaces or moves\<close>

text \<open>
  The transform writes the identity fields itself: \<^verbatim>\<open>id\<close> of the bundle and of every
  resource, \<^verbatim>\<open>fullUrl\<close> of every entry, and the stash key, which it deletes. Whatever
  stood there is gone, so a field nested in such a value has no counterpart in the
  output; \<open>replaced\<close> says that of the path of the dict that holds a field. An
  \<^verbatim>\<open>identifier\<close> that is a single object becomes the first element of a list, which moves
  the fields nested in it by one index step; \<open>relocate\<close> gives the path after the
  transform. Both come in three layers: a record (the bundle itself or a resource), an
  entry, and the bundle with its entries.
\<close>

fun replaced_rec :: "step list \<Rightarrow> bool" where
  "replaced_rec (Key k # rest) = (k = ''id'')"
| "replaced_rec p = False"

fun relocate_rec :: "step list \<Rightarrow> step list" where
  "relocate_rec (Key k # Idx i # rest) = Key k # Idx i # rest"
| "relocate_rec (Key k # rest) =
     (if k = ''identifier'' then Key k # Idx 0 # rest else Key k # rest)"
| "relocate_rec p = p"

fun replaced_entry :: "step list \<Rightarrow> bool" where
  "replaced_entry (Key k # rest) =
     (k = ''fullUrl'' \<or> k = ''_generated_uuid'' \<or> (k = ''resource'' \<and> replaced_rec rest))"
| "replaced_entry p = False"

fun relocate_entry :: "step list \<Rightarrow> step list" where
  "relocate_entry (Key k # rest) =
     (if k = ''resource'' then Key k # relocate_rec rest else Key k # rest)"
| "relocate_entry p = p"

fun replaced :: "step list \<Rightarrow> bool" where
  "replaced (Key k # Idx i # rest) =
     (if k = ''entry'' then replaced_entry rest else replaced_rec (Key k # Idx i # rest))"
| "replaced p = replaced_rec p"

fun relocate :: "step list \<Rightarrow> step list" where
  "relocate (Key k # Idx i # rest) =
     (if k = ''entry'' then Key k # Idx i # relocate_entry rest else Key k # Idx i # rest)"
| "relocate p = relocate_rec p"

section \<open>What the assignment pass registers\<close>

text \<open>
  Read off \<^verbatim>\<open>collect_uuid_map\<close>: the flattened key \<^verbatim>\<open>kind/id\<close> under which an entry is
  registered in \<open>by_typeid_str\<close> (none when the kind is missing or false, or the id is not
  a string), and the prior locator under which it is registered in \<open>by_fullurl\<close> (its
  \<^verbatim>\<open>fullUrl\<close>, trimmed, when that is a string). \<open>run_indices\<close> are the indices that a run of
  the transform builds.
\<close>

definition entry_key :: "json \<Rightarrow> string option" where
  "entry_key e0 =
     (case e0 of
        JObj e \<Rightarrow>
          (case entry_resource e of
             JObj res \<Rightarrow>
               (case dict_get res ''id'' of
                  JStr oid \<Rightarrow>
                    if truthy (dict_get res ''resourceType'')
                    then Some (py_str (dict_get res ''resourceType'') @ ''/'' @ oid)
                    else None
                | _ \<Rightarrow> None)
           | _ \<Rightarrow> None)
      | _ \<Rightarrow> None)"

definition entry_locator :: "json \<Rightarrow> string option" where
  "entry_locator e0 =
     (case e0 of
        JObj e \<Rightarrow> (case dict_get e ''fullUrl'' of JStr f \<Rightarrow> Some (py_strip is_space f) | _ \<Rightarrow> None)
      | _ \<Rightarrow> None)"

definition run_indices :: "(nat \<Rightarrow> string) \<Rightarrow> dict \<Rightarrow> indices" where
  "run_indices gen bundle =
     (case collect_uuid_map gen (assign_bundle_id (gen 0) bundle) 1 of
        Inr (b1, ix, n) \<Rightarrow> ix
      | Inl err \<Rightarrow> empty_indices)"

text \<open>An entry whose record has the kind \<open>kind\<close> and the local identity \<open>lid\<close>.\<close>

definition has_kind_id :: "json \<Rightarrow> string \<Rightarrow> string \<Rightarrow> bool" where
  "has_kind_id e0 kind lid \<longleftrightarrow>
     (case e0 of
        JObj e \<Rightarrow>
          (case entry_resource e of
             JObj res \<Rightarrow> dict_get res ''resourceType'' = JStr kind \<and> dict_get res ''id'' = JStr lid
           | _ \<Rightarrow> False)
      | _ \<Rightarrow> False)"

text \<open>
  The relative form \<^verbatim>\<open>Kind/local-identity\<close> as the specification gives it: the kind is a
  letter followed by one or more letters or digits, the local identity is 1 to 64
  characters out of letters, digits, the hyphen and the dot.
\<close>

definition is_kind :: "string \<Rightarrow> bool" where
  "is_kind k \<longleftrightarrow> (case k of c # cs \<Rightarrow> is_alpha c \<and> cs \<noteq> [] \<and> list_all is_alnum cs | [] \<Rightarrow> False)"

definition is_local_id :: "string \<Rightarrow> bool" where
  "is_local_id i \<longleftrightarrow> i \<noteq> [] \<and> length i \<le> 64 \<and> list_all is_idchar i"

section \<open>Example documents\<close>

text \<open>
  A supply of identifiers for the examples: four strings of the shape \<^verbatim>\<open>uuid4\<close> prints,
  different from one another.
\<close>

definition demo_gen :: "nat \<Rightarrow> string" where
  "demo_gen n =
     (if n = 0 then ''0a0a0a0a-0000-4000-8000-000000000000''
      else if n = 1 then ''1b1b1b1b-1111-4111-9111-111111111111''
      else if n = 2 then ''2c2c2c2c-2222-4222-a222-222222222222''
      else ''3d3d3d3d-3333-4333-b333-333333333333'')"

text \<open>A coding whose system is spelled like a reference, beside a real reference.\<close>

definition coding_example :: json where
  "coding_example =
     JObj [(''code'', JObj [(''coding'', JArr [JObj [(''system'', JStr ''Patient/123'')]])]),
           (''subject'', JObj [(''reference'', JStr ''Patient/123'')])]"

text \<open>
  Three records: an observation that refers to a patient and a practitioner listed after
  it (a relative and an absolute reference), and to two records that are not in the
  bundle.
\<close>

definition sample_entries :: "json list" where
  "sample_entries =
     [JObj [(''resource'', JObj
        [(''resourceType'', JStr ''Observation''), (''id'', JStr ''o1''),
         (''subject'', JObj [(''reference'', JStr ''Patient/p1'')]),
         (''performer'', JArr [JObj [(''reference'', JStr ''https://example.org/fhir/Practitioner/d1'')]]),
         (''basedOn'', JArr [JObj [(''reference'', JStr ''ServiceRequest/zz'')]]),
         (''specimen'', JObj [(''reference'', JStr ''https://example.org/fhir/Specimen/zz'')])])],
      JObj [(''resource'', JObj [(''resourceType'', JStr ''Patient''), (''id'', JStr ''p1'')])],
      JObj [(''resource'', JObj [(''resourceType'', JStr ''Practitioner''), (''id'', JStr ''d1'')])]]"

definition sample_bundle :: dict where
  "sample_bundle = [(''resourceType'', JStr ''Bundle''), (''entry'', JArr sample_entries)]"

text \<open>An observation whose entry has the prior locator \<^verbatim>\<open>Patient/p1\<close>, and the patient
  with that kind and identity.\<close>

definition locator_entries :: "json list" where
  "locator_entries =
     [JObj [(''fullUrl'', JStr ''Patient/p1''),
            (''resource'', JObj [(''resourceType'', JStr ''Observation''), (''id'', JStr ''o1''),
               (''subject'', JObj [(''reference'', JStr ''Patient/p1'')])])],
      JObj [(''resource'', JObj [(''resourceType'', JStr ''Patient''), (''id'', JStr ''p1'')])]]"

definition locator_bundle :: dict where
  "locator_bundle = [(''resourceType'', JStr ''Bundle''), (''entry'', JArr locator_entries)]"

text \<open>A reference through a server base of two path segments.\<close>

definition deep_base_entries :: "json list" where
  "deep_base_entries =
     [JObj [(''resource'', JObj [(''resourceType'', JStr ''Observation''), (''id'', JStr ''o1''),
               (''subject'', JObj [(''reference'', JStr ''https://example.org/fhir/r4/Patient/p1'')])])],
      JObj [(''resource'', JObj [(''resourceType'', JStr ''Patient''), (''id'', JStr ''p1'')])]]"

definition deep_base_bundle :: dict where
  "deep_base_bundle = [(''resourceType'', JStr ''Bundle''), (''entry'', JArr deep_base_entries)]"

text \<open>
  A bundle as a server returns it: every entry carries the locator under which the server
  holds its record, and the references are spelled as those locators, one absolute and
  one relative.
\<close>

definition located_entries :: "json list" where
  "located_entries =
     [JObj [(''fullUrl'', JStr ''https://example.org/fhir/Observation/o1''),
            (''resource'', JObj [(''resourceType'', JStr ''Observation''), (''id'', JStr ''o1''),
               (''subject'', JObj [(''reference'', JStr ''https://example.org/fhir/Patient/p1'')]),
               (''performer'', JArr [JObj [(''reference'', JStr ''Practitioner/d1'')]])])],
      JObj [(''fullUrl'', JStr ''https://example.org/fhir/Patient/p1''),
            (''resource'', JObj [(''resourceType'', JStr ''Patient''), (''id'', JStr ''p1'')])],
      JObj [(''fullUrl'', JStr ''Practitioner/d1''),
            (''resource'', JObj [(''resourceType'', JStr ''Practitioner''), (''id'', JStr ''d1'')])]]"

definition located_bundle :: dict where
  "located_bundle = [(''resourceType'', JStr ''Bundle''), (''entry'', JArr located_entries)]"

text \<open>
  Locators that do not agree with the records: the second entry has the locator of a
  patient \<^verbatim>\<open>p1\<close> and holds the patient \<^verbatim>\<open>p2\<close>, the patient \<^verbatim>\<open>p1\<close> comes after it, and the
  first entry has the locator of a practitioner that is not in the bundle.
\<close>

definition diverted_entries :: "json list" where
  "diverted_entries =
     [JObj [(''fullUrl'', JStr ''https://example.org/fhir/Practitioner/d9''),
            (''resource'', JObj [(''resourceType'', JStr ''Observation''), (''id'', JStr ''o1''),
               (''subject'', JObj [(''reference'', JStr ''https://example.org/fhir/Patient/p1'')]),
               (''performer'', JArr [JObj [(''reference'', JStr ''https://example.org/fhir/Practitioner/d9'')]])])],
      JObj [(''fullUrl'', JStr ''https://example.org/fhir/Patient/p1''),
            (''resource'', JObj [(''resourceType'', JStr ''Patient''), (''id'', JStr ''p2'')])],
      JObj [(''resource'', JObj [(''resourceType'', JStr ''Patient''), (''id'', JStr ''p1'')])]]"

definition diverted_bundle :: dict where
  "diverted_bundle = [(''resourceType'', JStr ''Bundle''), (''entry'', JArr diverted_entries)]"

text \<open>A contained reference and a canonical one, the first followed by a space, the
  second by a double quote.\<close>

definition marked_bundle :: dict where
  "marked_bundle =
     [(''resourceType'', JStr ''Bundle''),
      (''entry'', JArr
        [JObj [(''resource'', JObj [(''resourceType'', JStr ''Observation''), (''id'', JStr ''o1''),
                  (''subject'', JObj [(''reference'', JStr ''#p1 '')]),
                  (''device'', JObj [(''reference'',
                     JStr (''urn:uuid:d0d0d0d0-0000-4000-8000-00000000000d'' @ [CHR 0x22]))])])]])]"

text \<open>A bundle whose first entry already carries the key that the assignment pass uses
  as its stash.\<close>

definition stale_bundle :: dict where
  "stale_bundle =
     [(''resourceType'', JStr ''Bundle''),
      (''entry'', JArr
        [JObj [(''_generated_uuid'', JStr ''stale''),
               (''resource'', JObj [(''resourceType'', JStr ''Patient''), (''id'', JStr ''p1'')])],
         JObj [(''resource'', JObj [(''resourceType'', JStr ''Observation''), (''id'', JStr ''o1''),
                 (''subject'', JObj [(''reference'', JStr ''Patient/p1'')])])]])]"

section \<open>The identifier augmentor: properties\<close>

lemma same_ident_ident_of: "same_ident u (ident_of u)"
  by (simp add: same_ident_def ident_of_def dict_get_def)

lemma add_identifier_fresh:
  "add_identifier (AList.update ''identifier'' (JArr (xs @ [ident_of u])) r) u
     = AList.update ''identifier'' (JArr (xs @ [ident_of u])) r"
  by (simp add: add_identifier_def update_conv' same_ident_ident_of)

text \<open>
  C6. Applying the augmentor a second time with the same canonical value changes
  nothing: the record after two applications is the record after one, so its
  secondary-identifier field is the same and the entry is not there twice.
\<close>

theorem add_identifier_idempotent:
  "add_identifier (add_identifier r u) u = add_identifier r u"
proof (cases "map_of r ''identifier''")
  case None
  then have "add_identifier r u = AList.update ''identifier'' (JArr ([] @ [ident_of u])) r"
    by (simp add: add_identifier_def)
  then show ?thesis by (simp only: add_identifier_fresh)
next
  case (Some v)
  show ?thesis
  proof (cases v)
    case (JArr xs)
    show ?thesis
    proof (cases "list_ex (same_ident u) xs")
      case True
      with Some JArr have "add_identifier r u = r" by (simp add: add_identifier_def)
      then show ?thesis by simp
    next
      case False
      with Some JArr
      have "add_identifier r u = AList.update ''identifier'' (JArr (xs @ [ident_of u])) r"
        by (simp add: add_identifier_def)
      then show ?thesis by (simp only: add_identifier_fresh)
    qed
  next
    case (JObj d)
    with Some
    have "add_identifier r u = AList.update ''identifier'' (JArr ([JObj d] @ [ident_of u])) r"
      by (simp add: add_identifier_def)
    then show ?thesis by (simp only: add_identifier_fresh)
  next
    case JNull
    with Some
    have "add_identifier r u = AList.update ''identifier'' (JArr ([] @ [ident_of u])) r"
      by (simp add: add_identifier_def)
    then show ?thesis by (simp only: add_identifier_fresh)
  next
    case (JBool b)
    with Some
    have "add_identifier r u = AList.update ''identifier'' (JArr ([] @ [ident_of u])) r"
      by (simp add: add_identifier_def)
    then show ?thesis by (simp only: add_identifier_fresh)
  next
    case (JInt i)
    with Some
    have "add_identifier r u = AList.update ''identifier'' (JArr ([] @ [ident_of u])) r"
      by (simp add: add_identifier_def)
    then show ?thesis by (simp only: add_identifier_fresh)
  next
    case (JFloat f)
    with Some
    have "add_identifier r u = AList.update ''identifier'' (JArr ([] @ [ident_of u])) r"
      by (simp add: add_identifier_def)
    then show ?thesis by (simp only: add_identifier_fresh)
  next
    case (JStr t)
    with Some
    have "add_identifier r u = AList.update ''identifier'' (JArr ([] @ [ident_of u])) r"
      by (simp add: add_identifier_def)
    then show ?thesis by (simp only: add_identifier_fresh)
  qed
qed

text \<open>
  C7. The augmentor never removes a secondary identifier that was there: an absent
  field becomes the one-element sequence of the new entry; a single object becomes the
  two-element sequence of that object and then the new entry; a sequence keeps all its
  elements in place and gains at most the new entry at its end. No other field of the
  record is touched.
\<close>

theorem add_identifier_keeps:
  "(map_of r ''identifier'' = None \<longrightarrow>
      map_of (add_identifier r u) ''identifier'' = Some (JArr [ident_of u])) \<and>
   (map_of r ''identifier'' = Some (JObj d) \<longrightarrow>
      map_of (add_identifier r u) ''identifier'' = Some (JArr [JObj d, ident_of u])) \<and>
   (map_of r ''identifier'' = Some (JArr xs) \<longrightarrow>
      (\<exists>ys. map_of (add_identifier r u) ''identifier'' = Some (JArr (xs @ ys)) \<and>
            (ys = [] \<or> ys = [ident_of u]))) \<and>
   (k \<noteq> ''identifier'' \<longrightarrow> map_of (add_identifier r u) k = map_of r k)"
  by (auto simp: add_identifier_def Let_def update_conv' split: option.splits json.splits)

theorem add_identifier_keeps_witness:
  "map_of (add_identifier [(''id'', JStr ''p1'')] ''urn:uuid:u'') ''identifier''
     = Some (JArr [ident_of ''urn:uuid:u'']) \<and>
   map_of (add_identifier [(''identifier'', JObj [(''value'', JStr ''mrn-7'')])] ''urn:uuid:u'')
       ''identifier''
     = Some (JArr [JObj [(''value'', JStr ''mrn-7'')], ident_of ''urn:uuid:u'']) \<and>
   (\<exists>ys. map_of (add_identifier [(''identifier'', JArr [JObj [(''value'', JStr ''mrn-7'')]])]
              ''urn:uuid:u'') ''identifier''
          = Some (JArr ([JObj [(''value'', JStr ''mrn-7'')]] @ ys)) \<and>
         (ys = [] \<or> ys = [ident_of ''urn:uuid:u''])) \<and>
   map_of (add_identifier [(''id'', JStr ''p1'')] ''urn:uuid:u'') ''id'' = Some (JStr ''p1'')"
  using add_identifier_keeps [of "[(''id'', JStr ''p1'')]" "''urn:uuid:u''" "[]" "[]" "''id''"]
    add_identifier_keeps [of "[(''identifier'', JObj [(''value'', JStr ''mrn-7'')])]"
      "''urn:uuid:u''" "[(''value'', JStr ''mrn-7'')]" "[]" "''id''"]
    add_identifier_keeps [of "[(''identifier'', JArr [JObj [(''value'', JStr ''mrn-7'')]])]"
      "''urn:uuid:u''" "[]" "[JObj [(''value'', JStr ''mrn-7'')]]" "''id''"]
  by simp

section \<open>The sanitizer: properties\<close>

lemma rev_dropWhile_rev:
  "rev (dropWhile P (rev d)) = take (length d - length (takeWhile P (rev d))) d"
proof -
  have "rev d = takeWhile P (rev d) @ dropWhile P (rev d)" by simp
  then have "d = rev (dropWhile P (rev d)) @ rev (takeWhile P (rev d))"
    by (metis rev_append rev_rev_ident)
  then have "take (length (rev (dropWhile P (rev d)))) d = rev (dropWhile P (rev d))"
    by (metis append_eq_conv_conj)
  moreover have "length (rev (dropWhile P (rev d))) = length d - length (takeWhile P (rev d))"
    by (metis length_rev length_append add_diff_cancel_left' takeWhile_dropWhile_id)
  ultimately show ?thesis by simp
qed

lemma takeWhile_rev_dropWhile:
  assumes "dropWhile P s \<noteq> []"
  shows "takeWhile P (rev s) = takeWhile P (rev (dropWhile P s))"
proof -
  obtain x where x: "x \<in> set (dropWhile P s)" "\<not> P x"
    using assms by (metis hd_dropWhile hd_in_set)
  have "rev s = rev (dropWhile P s) @ rev (takeWhile P s)"
    by (metis rev_append takeWhile_dropWhile_id)
  moreover have "takeWhile P (rev (dropWhile P s) @ rev (takeWhile P s))
      = takeWhile P (rev (dropWhile P s))"
    using x by (intro takeWhile_append1[of x]) auto
  ultimately show ?thesis by simp
qed

lemma spec_trim_py_strip: "spec_trim P s = py_strip P s"
proof (cases "dropWhile P s = []")
  case True
  then have all: "\<forall>x\<in>set s. P x" by (simp add: dropWhile_eq_Nil_conv)
  then have twr: "takeWhile P (rev s) = rev s" by (simp add: takeWhile_eq_all_conv)
  from all have tw: "takeWhile P s = s" by (simp add: takeWhile_eq_all_conv)
  show ?thesis unfolding spec_trim_def py_strip_def Let_def True tw twr by simp
next
  case False
  let ?d = "dropWhile P s"
  have len: "length s = length (takeWhile P s) + length ?d"
    by (metis length_append takeWhile_dropWhile_id)
  have "drop (length (takeWhile P s)) s = ?d"
    by (metis append_eq_conv_conj takeWhile_dropWhile_id)
  moreover have "length (takeWhile P (rev ?d)) \<le> length ?d"
    by (metis length_rev length_takeWhile_le)
  ultimately show ?thesis
    using len takeWhile_rev_dropWhile[OF False] rev_dropWhile_rev[of P ?d]
    by (simp add: spec_trim_def py_strip_def Let_def)
qed

lemma re_sub_ws_nospace:
  "\<forall>x\<in>set xs. \<not> is_space x \<Longrightarrow> re_sub_ws (xs @ ys) = xs @ re_sub_ws ys"
  by (induction xs) auto

lemma spec_collapse_re_sub: "spec_collapse s = re_sub_ws s"
  unfolding spec_collapse_def
proof (induction is_space s rule: spec_runs.induct)
  case 1
  show ?case by simp
next
  case (2 c cs)
  show ?case
  proof (cases "is_space c")
    case True
    with 2 show ?thesis by simp
  next
    case False
    have "re_sub_ws (takeWhile (\<lambda>x. \<not> is_space x) cs @ dropWhile (\<lambda>x. \<not> is_space x) cs)
        = takeWhile (\<lambda>x. \<not> is_space x) cs @ re_sub_ws (dropWhile (\<lambda>x. \<not> is_space x) cs)"
      by (rule re_sub_ws_nospace) (auto dest: set_takeWhileD)
    with False 2 show ?thesis by simp
  qed
qed

text \<open>
  C8. On every string the sanitizer returns what the three rules of the specification
  give, applied in order: trim whitespace and then quote characters; return the result
  as it is when it starts with \<^verbatim>\<open>urn:uuid:\<close> or \<^verbatim>\<open>#\<close>; otherwise put one hyphen for each
  maximal run of whitespace. The sanitizer is a total function on strings with no error
  result: none of the string operations it is made of can raise.
\<close>

theorem sanitize_refines_spec: "sanitize_ref_string s = sanitize_spec s"
  by (simp add: sanitize_ref_string_def sanitize_spec_def spec_trim_py_strip spec_collapse_re_sub
      startswith_def Let_def)

section \<open>The rewriter: structure\<close>

lemma rewrite_fst:
  "fst (rewrite_references obj bf bt U) = map_refs (resolve bf bt) obj"
  "fst (rewrite_items kvs bf bt U) = map_refs_items (resolve bf bt) kvs"
  "fst (rewrite_elems xs bf bt U) = map_refs_elems (resolve bf bt) xs"
proof (induction obj bf bt U and kvs bf bt U and xs bf bt U
    rule: rewrite_references_rewrite_items_rewrite_elems.induct)
  case (9 k v kvs bf bt unknown)
  then show ?case
    by (cases v) (auto simp: resolve_def split: prod.splits option.splits if_splits)
qed (auto split: prod.splits)

lemma map_refs_comp:
  "map_refs g (map_refs f obj) = map_refs (g \<circ> f) obj"
  "map_refs_items g (map_refs_items f kvs) = map_refs_items (g \<circ> f) kvs"
  "map_refs_elems g (map_refs_elems f xs) = map_refs_elems (g \<circ> f) xs"
proof (induction f obj and f kvs and f xs rule: map_refs_map_refs_items_map_refs_elems.induct)
  case (9 f k v kvs)
  then show ?case by (cases v) auto
qed auto

lemma blank_map_refs: "blank_refs (map_refs f obj) = blank_refs obj"
  by (simp add: blank_refs_def map_refs_comp comp_def)

lemma map_of_map_refs_items:
  "map_of (map_refs_items f kvs) k =
     (case map_of kvs k of None \<Rightarrow> None
      | Some v \<Rightarrow> Some (case v of JStr r \<Rightarrow> if k = ''reference'' then JStr (f r) else v
                          | _ \<Rightarrow> map_refs f v))"
  by (induction kvs) (auto split: json.splits)

lemma length_map_refs_elems [simp]: "length (map_refs_elems f xs) = length xs"
  by (induction xs) auto

lemma nth_map_refs_elems: "i < length xs \<Longrightarrow> map_refs_elems f xs ! i = map_refs f (xs ! i)"
  by (induction xs arbitrary: i) (auto simp: nth_Cons')

lemma jget_map_refs_ref:
  "jget obj (p @ [Key ''reference'']) = Some (JStr v) \<Longrightarrow>
   jget (map_refs f obj) (p @ [Key ''reference'']) = Some (JStr (f v))"
proof (induction p arbitrary: obj)
  case Nil
  then show ?case
    by (cases obj) (auto simp: map_of_map_refs_items split: option.splits)
next
  case (Cons s p)
  show ?case
  proof (cases s)
    case (Key k)
    with Cons.prems obtain kvs w where o: "obj = JObj kvs" "map_of kvs k = Some w"
      "jget w (p @ [Key ''reference'']) = Some (JStr v)"
      by (cases obj) (auto split: option.splits)
    from o(3) have "jget (map_refs f w) (p @ [Key ''reference'']) = Some (JStr (f v))"
      by (rule Cons.IH)
    moreover from o(3) have "\<forall>r. w \<noteq> JStr r" by (cases p) auto
    ultimately show ?thesis using o Key
      by (cases w) (auto simp: map_of_map_refs_items)
  next
    case (Idx i)
    with Cons.prems obtain xs where o: "obj = JArr xs" "i < length xs"
      "jget (xs ! i) (p @ [Key ''reference'']) = Some (JStr v)"
      by (cases obj) (auto split: if_splits)
    from o(3) have "jget (map_refs f (xs ! i)) (p @ [Key ''reference'']) = Some (JStr (f v))"
      by (rule Cons.IH)
    then show ?thesis using o Idx by (simp add: nth_map_refs_elems)
  qed
qed

lemma jget_map_refs_other:
  "jget obj p = Some (JStr s) \<Longrightarrow> p = [] \<or> last p \<noteq> Key ''reference'' \<Longrightarrow>
   jget (map_refs f obj) p = Some (JStr s)"
proof (induction p arbitrary: obj)
  case Nil
  then show ?case by simp
next
  case (Cons st p)
  from Cons.prems(2) have lp: "p = [] \<or> last p \<noteq> Key ''reference''" by (auto split: if_splits)
  show ?case
  proof (cases st)
    case (Key k)
    with Cons.prems obtain kvs w where o: "obj = JObj kvs" "map_of kvs k = Some w"
      "jget w p = Some (JStr s)"
      by (cases obj) (auto split: option.splits)
    from o(3) lp have ih: "jget (map_refs f w) p = Some (JStr s)"
      by (rule Cons.IH)
    show ?thesis
    proof (cases w)
      case (JStr r)
      with o(3) have "p = []" "r = s" by (cases p; simp)+
      with Cons.prems(2) Key have "k \<noteq> ''reference''" by simp
      with o Key JStr \<open>p = []\<close> \<open>r = s\<close> show ?thesis by (simp add: map_of_map_refs_items)
    qed (use o Key ih in \<open>auto simp: map_of_map_refs_items\<close>)
  next
    case (Idx i)
    with Cons.prems obtain xs where o: "obj = JArr xs" "i < length xs"
      "jget (xs ! i) p = Some (JStr s)"
      by (cases obj) (auto split: if_splits)
    from o(3) lp have "jget (map_refs f (xs ! i)) p = Some (JStr s)"
      by (rule Cons.IH)
    then show ?thesis using o Idx by (simp add: nth_map_refs_elems)
  qed
qed

lemma rewrite_mono:
  "U \<subseteq> snd (rewrite_references obj bf bt U)"
  "U \<subseteq> snd (rewrite_items kvs bf bt U)"
  "U \<subseteq> snd (rewrite_elems xs bf bt U)"
proof (induction obj bf bt U and kvs bf bt U and xs bf bt U
    rule: rewrite_references_rewrite_items_rewrite_elems.induct)
  case (9 k v kvs bf bt unknown)
  then show ?case
    by (cases v) (fastforce split: prod.splits option.splits if_splits)+
next
  case (11 x xs bf bt unknown)
  then show ?case by (fastforce split: prod.splits)
qed (auto split: prod.splits)

section \<open>Marked references and the sanitizer\<close>

lemma py_strip_keep_prefix:
  assumes "p \<noteq> []" "\<not> P (hd p)" "\<not> P (last p)"
  shows "py_strip P (p @ rest) = p @ strip_right P rest"
proof -
  from assms have d: "dropWhile P (p @ rest) = p @ rest"
    by (cases p) auto
  have "dropWhile P (rev rest @ rev p) = dropWhile P (rev rest) @ rev p"
  proof (cases "\<forall>x\<in>set (rev rest). P x")
    case True
    then have "dropWhile P (rev rest @ rev p) = dropWhile P (rev p)"
      by (intro dropWhile_append2) auto
    moreover have "dropWhile P (rev p) = rev p"
      using assms by (cases p rule: rev_cases) auto
    moreover from True have "dropWhile P (rev rest) = []" by simp
    ultimately show ?thesis by simp
  next
    case False
    then obtain x where "x \<in> set (rev rest)" "\<not> P x" by blast
    then show ?thesis by (rule dropWhile_append1)
  qed
  with d show ?thesis by (simp add: py_strip_def strip_right_def)
qed

lemma sanitize_urn:
  "sanitize_ref_string (URN_PREFIX @ rest) = URN_PREFIX @ strip_right is_quote (strip_right is_space rest)"
proof -
  have 1: "py_strip is_space (URN_PREFIX @ rest) = URN_PREFIX @ strip_right is_space rest"
    by (rule py_strip_keep_prefix) (simp_all add: URN_PREFIX_def is_space_def)
  have 2: "py_strip is_quote (URN_PREFIX @ strip_right is_space rest)
      = URN_PREFIX @ strip_right is_quote (strip_right is_space rest)"
    by (rule py_strip_keep_prefix) (simp_all add: URN_PREFIX_def is_quote_def)
  show ?thesis by (simp add: sanitize_ref_string_def 1 2 startswith_def)
qed

lemma sanitize_hash:
  "sanitize_ref_string (CHR ''#'' # rest) = CHR ''#'' # strip_right is_quote (strip_right is_space rest)"
proof -
  have 1: "py_strip is_space (''#'' @ rest) = ''#'' @ strip_right is_space rest"
    by (rule py_strip_keep_prefix) (simp_all add: is_space_def)
  have 2: "py_strip is_quote (''#'' @ strip_right is_space rest)
      = ''#'' @ strip_right is_quote (strip_right is_space rest)"
    by (rule py_strip_keep_prefix) (simp_all add: is_quote_def)
  from 1 2 show ?thesis by (simp add: sanitize_ref_string_def startswith_def)
qed

lemma map_reference_None_not_marked:
  assumes "map_reference v bf bt = None"
  shows "\<not> startswith v URN_PREFIX \<and> \<not> startswith v ''#''"
proof -
  { assume "startswith v URN_PREFIX"
    then obtain rest where "v = URN_PREFIX @ rest" by (auto simp: startswith_def prefix_def)
    then have "startswith (sanitize_ref_string v) URN_PREFIX"
      by (simp add: sanitize_urn startswith_def)
    with assms have False by (simp add: map_reference_def Let_def) }
  moreover
  { assume "startswith v ''#''"
    then obtain rest where "v = CHR ''#'' # rest" by (auto simp: startswith_def prefix_def)
    then have "startswith (sanitize_ref_string v) ''#''"
      by (simp add: sanitize_hash startswith_def)
    with assms have False by (simp add: map_reference_def Let_def) }
  ultimately show ?thesis by blast
qed

section \<open>The rewriter: the unresolved set\<close>

lemma snd_rewrite_JObj: "snd (rewrite_references (JObj kvs) bf bt U) = snd (rewrite_items kvs bf bt U)"
  by (simp split: prod.splits)

lemma snd_rewrite_JArr: "snd (rewrite_references (JArr xs) bf bt U) = snd (rewrite_elems xs bf bt U)"
  by (simp split: prod.splits)

lemma rewrite_items_snd_Cons:
  "\<exists>U1. U \<subseteq> U1 \<and> snd (rewrite_items ((k, w) # kvs) bf bt U) = snd (rewrite_items kvs bf bt U1) \<and>
     (k = ''reference'' \<longrightarrow> (\<forall>v. w = JStr v \<longrightarrow> map_reference v bf bt = None \<longrightarrow> v \<in> U1)) \<and>
     (\<not> (k = ''reference'' \<and> (\<exists>v. w = JStr v)) \<longrightarrow> U1 = snd (rewrite_references w bf bt U))"
proof (cases "k = ''reference'' \<and> (\<exists>v. w = JStr v)")
  case True
  then obtain v where w: "w = JStr v" and k: "k = ''reference''" by blast
  show ?thesis
  proof (cases "map_reference v bf bt")
    case None
    then have "\<not> startswith v URN_PREFIX" "\<not> startswith v ''#''"
      using map_reference_None_not_marked by blast+
    with None w k show ?thesis
      by (intro exI[of _ "insert v U"]) (auto split: prod.splits)
  next
    case (Some m)
    with w k show ?thesis
      by (intro exI[of _ U]) (auto split: prod.splits)
  qed
next
  case False
  then have "rewrite_items ((k, w) # kvs) bf bt U =
    (case rewrite_references w bf bt U of (v', U') \<Rightarrow>
       (case rewrite_items kvs bf bt U' of (kvs', U'') \<Rightarrow> ((k, v') # kvs', U'')))"
    by (cases w) auto
  with False show ?thesis
    using rewrite_mono(1)[of U w bf bt]
    by (intro exI[of _ "snd (rewrite_references w bf bt U)"]) (auto split: prod.splits)
qed

lemma rewrite_unknown_direct:
  "map_of kvs ''reference'' = Some (JStr v) \<Longrightarrow> map_reference v bf bt = None \<Longrightarrow>
     v \<in> snd (rewrite_items kvs bf bt U)"
proof (induction kvs arbitrary: U)
  case Nil
  then show ?case by simp
next
  case (Cons kv kvs)
  obtain k w where kv: "kv = (k, w)" by (cases kv)
  obtain U1 where U1: "U \<subseteq> U1"
      "snd (rewrite_items ((k, w) # kvs) bf bt U) = snd (rewrite_items kvs bf bt U1)"
      "k = ''reference'' \<longrightarrow> (\<forall>v. w = JStr v \<longrightarrow> map_reference v bf bt = None \<longrightarrow> v \<in> U1)"
    using rewrite_items_snd_Cons[where U = U and k = k and w = w and kvs = kvs and bf = bf and bt = bt]
    by blast
  show ?case
  proof (cases "k = ''reference''")
    case True
    with Cons.prems kv have w: "w = JStr v" by simp
    with True U1(3) Cons.prems(2) have "v \<in> U1" by blast
    moreover have "U1 \<subseteq> snd (rewrite_items kvs bf bt U1)" by (rule rewrite_mono)
    ultimately show ?thesis unfolding kv U1(2) by blast
  next
    case False
    with Cons.prems kv have "map_of kvs ''reference'' = Some (JStr v)" by simp
    then have "v \<in> snd (rewrite_items kvs bf bt U1)" using Cons.IH Cons.prems(2) by blast
    then show ?thesis unfolding kv U1(2) .
  qed
qed

lemma rewrite_items_unknown_at:
  "map_of kvs k = Some w \<Longrightarrow> \<not> (k = ''reference'' \<and> (\<exists>v. w = JStr v)) \<Longrightarrow>
   (\<And>U'. x \<in> snd (rewrite_references w bf bt U')) \<Longrightarrow>
     x \<in> snd (rewrite_items kvs bf bt U)"
proof (induction kvs arbitrary: U)
  case Nil
  then show ?case by simp
next
  case (Cons kv kvs)
  obtain k' w' where kv: "kv = (k', w')" by (cases kv)
  obtain U1 where U1: "U \<subseteq> U1"
      "snd (rewrite_items ((k', w') # kvs) bf bt U) = snd (rewrite_items kvs bf bt U1)"
      "\<not> (k' = ''reference'' \<and> (\<exists>v. w' = JStr v)) \<longrightarrow> U1 = snd (rewrite_references w' bf bt U)"
    using rewrite_items_snd_Cons[where U = U and k = k' and w = w' and kvs = kvs and bf = bf and bt = bt]
    by blast
  show ?case
  proof (cases "k' = k")
    case True
    with Cons.prems kv have "w' = w" by simp
    with True U1(3) Cons.prems(2,3) have "x \<in> U1" by blast
    moreover have "U1 \<subseteq> snd (rewrite_items kvs bf bt U1)" by (rule rewrite_mono)
    ultimately show ?thesis unfolding kv U1(2) by blast
  next
    case False
    with Cons.prems kv have "map_of kvs k = Some w" by simp
    then have "x \<in> snd (rewrite_items kvs bf bt U1)" using Cons.IH Cons.prems(2,3) by blast
    then show ?thesis unfolding kv U1(2) .
  qed
qed

lemma rewrite_elems_unknown_at:
  "i < length xs \<Longrightarrow> (\<And>U'. x \<in> snd (rewrite_references (xs ! i) bf bt U')) \<Longrightarrow>
     x \<in> snd (rewrite_elems xs bf bt U)"
proof (induction xs arbitrary: U i)
  case Nil
  then show ?case by simp
next
  case (Cons y ys)
  have s: "snd (rewrite_elems (y # ys) bf bt U)
      = snd (rewrite_elems ys bf bt (snd (rewrite_references y bf bt U)))"
    by (simp split: prod.splits)
  show ?case
  proof (cases i)
    case 0
    with Cons.prems have "x \<in> snd (rewrite_references y bf bt U)" by simp
    moreover have "snd (rewrite_references y bf bt U)
        \<subseteq> snd (rewrite_elems ys bf bt (snd (rewrite_references y bf bt U)))"
      by (rule rewrite_mono)
    ultimately show ?thesis unfolding s by blast
  next
    case (Suc j)
    with Cons.prems have "j < length ys" "\<And>U'. x \<in> snd (rewrite_references (ys ! j) bf bt U')"
      by auto
    then have "x \<in> snd (rewrite_elems ys bf bt (snd (rewrite_references y bf bt U)))"
      by (rule Cons.IH)
    then show ?thesis unfolding s .
  qed
qed

lemma rewrite_unknown_at:
  "jget obj (p @ [Key ''reference'']) = Some (JStr v) \<Longrightarrow> map_reference v bf bt = None \<Longrightarrow>
     v \<in> snd (rewrite_references obj bf bt U)"
proof (induction p arbitrary: obj U)
  case Nil
  then obtain kvs where o: "obj = JObj kvs" "map_of kvs ''reference'' = Some (JStr v)"
    by (cases obj) (auto split: option.splits)
  with Nil.prems(2) have "v \<in> snd (rewrite_items kvs bf bt U)"
    by (intro rewrite_unknown_direct)
  with o show ?case by (simp only: snd_rewrite_JObj)
next
  case (Cons s p)
  show ?case
  proof (cases s)
    case (Key k)
    with Cons.prems obtain kvs w where o: "obj = JObj kvs" "map_of kvs k = Some w"
      "jget w (p @ [Key ''reference'']) = Some (JStr v)"
      by (cases obj) (auto split: option.splits)
    from o(3) have ns: "\<not> (\<exists>r. w = JStr r)" by (cases p) auto
    have "\<And>U'. v \<in> snd (rewrite_references w bf bt U')"
      using Cons.IH[OF o(3) Cons.prems(2)] .
    with o(2) ns have "v \<in> snd (rewrite_items kvs bf bt U)"
      by (intro rewrite_items_unknown_at[where k = k and w = w]) auto
    with o show ?thesis by (simp only: snd_rewrite_JObj)
  next
    case (Idx i)
    with Cons.prems obtain xs where o: "obj = JArr xs" "i < length xs"
      "jget (xs ! i) (p @ [Key ''reference'']) = Some (JStr v)"
      by (cases obj) (auto split: if_splits)
    have "\<And>U'. v \<in> snd (rewrite_references (xs ! i) bf bt U')"
      using Cons.IH[OF o(3) Cons.prems(2)] .
    with o(2) have "v \<in> snd (rewrite_elems xs bf bt U)"
      by (intro rewrite_elems_unknown_at[where i = i]) auto
    with o show ?thesis by (simp only: snd_rewrite_JArr)
  qed
qed

section \<open>The rewriter: what it leaves alone\<close>

text \<open>
  C9. One pass of the rewriter changes nothing but strings stored under the key
  \<^verbatim>\<open>reference\<close>: with those strings wiped, the document after the pass is the document
  before it (same keys in the same order, same sequences, same values); and a string at
  any path whose last step is not that key is still there after the pass, whatever it
  looks like.
\<close>

theorem rewrite_references_frame:
  "blank_refs (fst (rewrite_references obj bf bt unknown)) = blank_refs obj \<and>
   (jget obj p = Some (JStr s) \<and> (p = [] \<or> last p \<noteq> Key ''reference'') \<longrightarrow>
      jget (fst (rewrite_references obj bf bt unknown)) p = Some (JStr s))"
  by (simp add: rewrite_fst blank_map_refs jget_map_refs_other)

theorem rewrite_references_frame_witness:
  "jget coding_example [Key ''code'', Key ''coding'', Idx 0, Key ''system''] = Some (JStr ''Patient/123'') \<and>
   blank_refs (fst (rewrite_references coding_example Map.empty
       (Map.empty(''Patient/123'' \<mapsto> ''urn:uuid:x'')) {})) = blank_refs coding_example \<and>
   jget (fst (rewrite_references coding_example Map.empty
       (Map.empty(''Patient/123'' \<mapsto> ''urn:uuid:x'')) {}))
     [Key ''code'', Key ''coding'', Idx 0, Key ''system''] = Some (JStr ''Patient/123'') \<and>
   jget (fst (rewrite_references coding_example Map.empty
       (Map.empty(''Patient/123'' \<mapsto> ''urn:uuid:x'')) {}))
     [Key ''subject'', Key ''reference''] = Some (JStr ''urn:uuid:x'')"
proof -
  have a: "jget coding_example [Key ''code'', Key ''coding'', Idx 0, Key ''system'']
      = Some (JStr ''Patient/123'')"
    by code_simp
  have b: "jget (fst (rewrite_references coding_example Map.empty
       (Map.empty(''Patient/123'' \<mapsto> ''urn:uuid:x'')) {}))
     [Key ''subject'', Key ''reference''] = Some (JStr ''urn:uuid:x'')"
    by code_simp
  from a b rewrite_references_frame [of coding_example Map.empty
      "Map.empty(''Patient/123'' \<mapsto> ''urn:uuid:x'')" "{}"
      "[Key ''code'', Key ''coding'', Idx 0, Key ''system'']" "''Patient/123''"]
  show ?thesis by simp
qed

section \<open>The two loops over the entries\<close>

lemma map_fst_map_refs_items [simp]: "map fst (map_refs_items f kvs) = map fst kvs"
  by (induction kvs) auto

lemma map_refs_elems_map: "map_refs_elems f xs = map (map_refs f) xs"
  by (induction xs) auto

lemma map_refs_JArr_iff: "map_refs f w = JArr es \<longleftrightarrow> (\<exists>es0. w = JArr es0 \<and> es = map_refs_elems f es0)"
  by (cases w) auto

lemma map_refs_JObj_iff: "map_refs f w = JObj d \<longleftrightarrow> (\<exists>d0. w = JObj d0 \<and> d = map_refs_items f d0)"
  by (cases w) auto

lemma collect_entry_shape:
  assumes "collect_entry gen e0 ix n = Inr (e', ix', n')"
  shows "\<exists>e res. e0 = JObj e \<and> entry_resource e = JObj res \<and>
           e' = JObj (setdefault ''_generated_uuid'' (JStr (gen n)) e) \<and> n' = Suc n"
  using assms
  by (auto simp: collect_entry_def Let_def split: json.splits if_splits)

lemma collect_loop_shape:
  assumes "collect_loop gen es ix n = Inr (es', ix', n')"
  shows "length es' = length es \<and> n' = n + length es \<and>
     (\<forall>i<length es. \<exists>e res. es ! i = JObj e \<and> entry_resource e = JObj res \<and>
         es' ! i = JObj (setdefault ''_generated_uuid'' (JStr (gen (n + i))) e))"
  using assms
proof (induction es arbitrary: ix n es' ix' n')
  case Nil
  then show ?case by simp
next
  case (Cons a es)
  from Cons.prems obtain a' ix1 n1 es1 where
    a: "collect_entry gen a ix n = Inr (a', ix1, n1)" and
    l: "collect_loop gen es ix1 n1 = Inr (es1, ix', n')" and
    e: "es' = a' # es1"
    by (auto split: sum.splits)
  from collect_entry_shape[OF a] obtain e res where
    s: "a = JObj e" "entry_resource e = JObj res"
       "a' = JObj (setdefault ''_generated_uuid'' (JStr (gen n)) e)" "n1 = Suc n"
    by blast
  from Cons.IH[OF l] have ih: "length es1 = length es" "n' = n1 + length es"
    "\<forall>i<length es. \<exists>e res. es ! i = JObj e \<and> entry_resource e = JObj res \<and>
         es1 ! i = JObj (setdefault ''_generated_uuid'' (JStr (gen (n1 + i))) e)"
    by blast+
  show ?case
  proof (intro conjI allI impI)
    show "length es' = length (a # es)" using e ih(1) by simp
    show "n' = n + length (a # es)" using ih(2) s(4) by simp
  next
    fix i assume "i < length (a # es)"
    then show "\<exists>e res. (a # es) ! i = JObj e \<and> entry_resource e = JObj res \<and>
         es' ! i = JObj (setdefault ''_generated_uuid'' (JStr (gen (n + i))) e)"
      using s e ih(3) by (cases i) auto
  qed
qed

lemma rewrite_entry_shape:
  assumes "rewrite_entry gen ix e0 n U = Inr (e', n', U')"
  shows "\<exists>e res d. e0 = JObj e \<and> entry_resource e = JObj res \<and> e' = JObj d \<and>
           map_of d ''_generated_uuid'' = None"
  using assms
  by (auto simp: rewrite_entry_def Let_def delete_conv' split: json.splits if_splits prod.splits)

lemma rewrite_loop_no_stash:
  assumes "rewrite_loop gen ix es n U = Inr (es', n', U')"
  shows "\<forall>e'\<in>set es'. \<exists>d. e' = JObj d \<and> map_of d ''_generated_uuid'' = None"
  using assms
proof (induction es arbitrary: n U es' n' U')
  case Nil
  then show ?case by simp
next
  case (Cons a es)
  from Cons.prems obtain a' n1 U1 es1 where
    a: "rewrite_entry gen ix a n U = Inr (a', n1, U1)" and
    l: "rewrite_loop gen ix es n1 U1 = Inr (es1, n', U')" and
    e: "es' = a' # es1"
    by (auto split: sum.splits)
  from rewrite_entry_shape[OF a] Cons.IH[OF l] e show ?case by auto
qed

lemma transform_bundle_Inr:
  assumes "transform_bundle gen bundle = Inr r"
  obtains b1 ix n es1 es2 n' U where
    "collect_uuid_map gen (assign_bundle_id (gen 0) bundle) 1 = Inr (b1, ix, n)"
    "py_iter (bundle_entries b1) = Inr es1"
    "rewrite_loop gen ix es1 n {} = Inr (es2, n', U)"
    "doc r = map_refs (resolve (by_fullurl ix) (by_typeid_str ix)) (JObj (store_entries es2 b1))"
    "unknown_refs r = snd (rewrite_references (JObj (store_entries es2 b1))
        (by_fullurl ix) (by_typeid_str ix) U)"
    "stderr r = warning (unknown_refs r)"
proof -
  from assms obtain b1 ix n where
    c: "collect_uuid_map gen (assign_bundle_id (gen 0) bundle) 1 = Inr (b1, ix, n)"
    by (auto simp: transform_bundle_def Let_def split: sum.splits)
  with assms obtain es1 where i: "py_iter (bundle_entries b1) = Inr es1"
    by (auto simp: transform_bundle_def Let_def split: sum.splits)
  with assms c obtain es2 n' U where l: "rewrite_loop gen ix es1 n {} = Inr (es2, n', U)"
    by (auto simp: transform_bundle_def Let_def split: sum.splits)
  let ?rw = "rewrite_references (JObj (store_entries es2 b1)) (by_fullurl ix) (by_typeid_str ix) U"
  from assms c i l have r: "r = \<lparr>doc = fst ?rw, unknown_refs = snd ?rw, stderr = warning (snd ?rw)\<rparr>"
    by (auto simp: transform_bundle_def Let_def split: prod.splits)
  have "doc r = fst ?rw" "unknown_refs r = snd ?rw" "stderr r = warning (unknown_refs r)"
    by (simp_all only: r run.select_convs)
  then show thesis
    by (intro that[OF c i l]) (simp_all only: rewrite_fst)
qed

section \<open>The stash is removed\<close>

text \<open>
  C10. When \<^verbatim>\<open>transform_bundle\<close> returns, no entry of the returned bundle has the key
  \<^verbatim>\<open>_generated_uuid\<close>, whether the assignment pass put it there or the input already had
  it: the second loop deletes the key from every entry, and the last pass of the rewriter
  adds no key.
\<close>

theorem no_stash_left:
  assumes "transform_bundle gen bundle = Inr r"
    and "jget (doc r) [Key ''entry''] = Some (JArr es)"
  shows "\<forall>e\<in>set es. \<exists>d. e = JObj d \<and> ''_generated_uuid'' \<notin> fst ` set d"
proof -
  from assms(1) obtain b1 ix n es1 es2 n' U where
    l: "rewrite_loop gen ix es1 n {} = Inr (es2, n', U)" and
    d: "doc r = map_refs (resolve (by_fullurl ix) (by_typeid_str ix)) (JObj (store_entries es2 b1))"
    by (rule transform_bundle_Inr)
  let ?R = "resolve (by_fullurl ix) (by_typeid_str ix)"
  from assms(2) d have "map_of (map_refs_items ?R (store_entries es2 b1)) ''entry'' = Some (JArr es)"
    by (simp split: option.splits)
  then obtain w where w: "map_of (store_entries es2 b1) ''entry'' = Some w" "map_refs ?R w = JArr es"
    by (auto simp: map_of_map_refs_items split: option.splits json.splits)
  from w(2) obtain es0 where es0: "w = JArr es0" "es = map_refs_elems ?R es0"
    by (auto simp: map_refs_JArr_iff)
  have "es0 = es2"
    using w(1) es0(1)
    by (auto simp: store_entries_def update_conv' split: option.splits json.splits)
  with es0 have es: "es = map (map_refs ?R) es2" by (simp add: map_refs_elems_map)
  show ?thesis
  proof
    fix e assume "e \<in> set es"
    with es obtain e2 where e2: "e2 \<in> set es2" "e = map_refs ?R e2" by auto
    with rewrite_loop_no_stash[OF l] obtain d2 where
      d2: "e2 = JObj d2" "map_of d2 ''_generated_uuid'' = None" by blast
    from d2(2) have "''_generated_uuid'' \<notin> fst ` set d2" by (simp add: map_of_eq_None_iff)
    then have "''_generated_uuid'' \<notin> fst ` set (map_refs_items ?R d2)"
      by (metis map_fst_map_refs_items set_map)
    with e2 d2 show "\<exists>d. e = JObj d \<and> ''_generated_uuid'' \<notin> fst ` set d" by simp
  qed
qed

theorem no_stash_left_witness:
  "\<exists>r e es. transform_bundle demo_gen stale_bundle = Inr r \<and>
     jget (doc r) [Key ''entry''] = Some (JArr (e # es)) \<and>
     (\<exists>d. e = JObj d \<and> ''_generated_uuid'' \<notin> fst ` set d)"
proof -
  have "case transform_bundle demo_gen stale_bundle of
          Inr r \<Rightarrow> (case jget (doc r) [Key ''entry''] of Some (JArr (e # es)) \<Rightarrow> True | _ \<Rightarrow> False)
        | Inl err \<Rightarrow> False"
    by code_simp
  then obtain r e es where r: "transform_bundle demo_gen stale_bundle = Inr r"
    "jget (doc r) [Key ''entry''] = Some (JArr (e # es))"
    by (auto split: sum.splits option.splits json.splits list.splits)
  from no_stash_left [OF r] have "\<exists>d. e = JObj d \<and> ''_generated_uuid'' \<notin> fst ` set d"
    by simp
  with r show ?thesis by blast
qed

section \<open>Fields through the identity assignment\<close>

lemma jget_augmented:
  assumes keep: "\<And>k. k \<noteq> ''id'' \<Longrightarrow> k \<noteq> ''identifier'' \<Longrightarrow> map_of res' k = map_of res k"
    and obj: "\<And>d. map_of res ''identifier'' = Some (JObj d) \<Longrightarrow>
               \<exists>y. map_of res' ''identifier'' = Some (JArr [JObj d, y])"
    and arr: "\<And>xs. map_of res ''identifier'' = Some (JArr xs) \<Longrightarrow>
               \<exists>ys. map_of res' ''identifier'' = Some (JArr (xs @ ys))"
    and g: "jget (JObj res) (p @ [Key ''reference'']) = Some x"
    and nr: "\<not> replaced_rec p"
  shows "jget (JObj res') (relocate_rec p @ [Key ''reference'']) = Some x"
proof (cases p)
  case Nil
  with g keep[of "''reference''"] show ?thesis by simp
next
  case (Cons s rest)
  show ?thesis
  proof (cases s)
    case (Idx i)
    with g Cons show ?thesis by simp
  next
    case (Key k)
    with nr Cons have kid: "k \<noteq> ''id''" by simp
    from g Cons Key obtain w where w: "map_of res k = Some w"
      "jget w (rest @ [Key ''reference'']) = Some x"
      by (auto split: option.splits)
    show ?thesis
    proof (cases "k = ''identifier''")
      case False
      with kid keep[of k] w have "jget (JObj res') (Key k # rest @ [Key ''reference'']) = Some x"
        by simp
      moreover from False have "relocate_rec (Key k # rest) = Key k # rest"
        by (cases "Key k # rest" rule: relocate_rec.cases) auto
      ultimately show ?thesis using Cons Key by simp
    next
      case True
      show ?thesis
      proof (cases "rest @ [Key ''reference'']")
        case Nil
        then show ?thesis by simp
      next
        case (Cons s2 rest2)
        show ?thesis
        proof (cases s2)
          case (Key k2)
          with w(2) Cons obtain d where d: "w = JObj d" by (cases w) auto
          with obj w(1) True obtain y where "map_of res' ''identifier'' = Some (JArr [JObj d, y])"
            by blast
          moreover have "relocate_rec (Key k # rest) = Key k # Idx 0 # rest"
            using True Cons Key by (cases rest) auto
          ultimately show ?thesis using w(2) d True \<open>p = s # rest\<close> \<open>s = Key k\<close> by simp
        next
          case (Idx i)
          with w(2) Cons obtain xs where xs: "w = JArr xs" "i < length xs" 
            "jget (xs ! i) rest2 = Some x"
            by (cases w) (auto split: if_splits)
          with arr w(1) True obtain ys where ys: "map_of res' ''identifier'' = Some (JArr (xs @ ys))"
            by blast
          from Cons Idx obtain rest' where r': "rest = Idx i # rest'" "rest2 = rest' @ [Key ''reference'']"
            by (cases rest) auto
          then have "relocate_rec (Key k # rest) = Key k # rest" by simp
          with ys xs r' True \<open>p = s # rest\<close> \<open>s = Key k\<close> show ?thesis
            by (simp add: nth_append)
        qed
      qed
    qed
  qed
qed

lemma jget_assign_bundle_id:
  assumes "jget (JObj bundle) (p @ [Key ''reference'']) = Some x" "\<not> replaced_rec p"
  shows "jget (JObj (assign_bundle_id u bundle)) (relocate_rec p @ [Key ''reference'']) = Some x"
proof (rule jget_augmented[OF _ _ _ assms])
  fix k :: string assume "k \<noteq> ''id''" "k \<noteq> ''identifier''"
  then show "map_of (assign_bundle_id u bundle) k = map_of bundle k"
    by (auto simp: assign_bundle_id_def Let_def update_conv' split: option.splits json.splits)
next
  fix d assume "map_of bundle ''identifier'' = Some (JObj d)"
  then show "\<exists>y. map_of (assign_bundle_id u bundle) ''identifier'' = Some (JArr [JObj d, y])"
    by (auto simp: assign_bundle_id_def Let_def update_conv')
next
  fix xs assume "map_of bundle ''identifier'' = Some (JArr xs)"
  then show "\<exists>ys. map_of (assign_bundle_id u bundle) ''identifier'' = Some (JArr (xs @ ys))"
    by (auto simp: assign_bundle_id_def Let_def update_conv')
qed

lemma jget_add_identifier:
  assumes "jget (JObj res) (p @ [Key ''reference'']) = Some x" "\<not> replaced_rec p"
  shows "jget (JObj (add_identifier (AList.update ''id'' nu res) urn))
           (relocate_rec p @ [Key ''reference'']) = Some x"
proof (rule jget_augmented[OF _ _ _ assms])
  fix k :: string assume "k \<noteq> ''id''" "k \<noteq> ''identifier''"
  then show "map_of (add_identifier (AList.update ''id'' nu res) urn) k = map_of res k"
    by (auto simp: add_identifier_def Let_def update_conv' split: option.splits json.splits)
next
  fix d assume "map_of res ''identifier'' = Some (JObj d)"
  then show "\<exists>y. map_of (add_identifier (AList.update ''id'' nu res) urn) ''identifier''
      = Some (JArr [JObj d, y])"
    by (auto simp: add_identifier_def Let_def update_conv')
next
  fix xs assume "map_of res ''identifier'' = Some (JArr xs)"
  then show "\<exists>ys. map_of (add_identifier (AList.update ''id'' nu res) urn) ''identifier''
      = Some (JArr (xs @ ys))"
    by (cases "list_ex (same_ident urn) xs") (auto simp: add_identifier_def Let_def update_conv')
qed


lemma map_of_setdefault: "k' \<noteq> k \<Longrightarrow> map_of (setdefault k v d) k' = map_of d k'"
  by (auto simp: setdefault_def map_add_def split: option.splits)

lemma entry_resource_setdefault:
  "entry_resource (setdefault ''_generated_uuid'' v e) = entry_resource e"
  by (simp add: entry_resource_def map_of_setdefault)

lemma rewrite_entry_field:
  assumes r: "rewrite_entry gen ix (JObj e1) n U = Inr (e', n', U')"
    and g: "jget (JObj e1) (p @ [Key ''reference'']) = Some (JStr v)"
    and nr: "\<not> replaced_entry p"
  shows "\<exists>v'. jget e' (relocate_entry p @ [Key ''reference'']) = Some (JStr v') \<and>
           (v' = v \<or> v' = resolve (by_fullurl ix) (by_typeid_str ix) v)"
proof -
  let ?R = "resolve (by_fullurl ix) (by_typeid_str ix)"
  from r obtain res where res: "entry_resource e1 = JObj res"
    by (auto simp: rewrite_entry_def split: json.splits)
  define stash where "stash = dict_get e1 ''_generated_uuid''"
  define nu where "nu = (if truthy stash then stash else JStr (gen n))"
  define e1' where "e1' = AList.update ''fullUrl'' (JStr (to_urn nu)) e1"
  define res3 where "res3 = fst (rewrite_references
      (JObj (add_identifier (AList.update ''id'' nu res) (to_urn nu))) (by_fullurl ix) (by_typeid_str ix) U)"
  define e2 where "e2 = (if ''resource'' \<in> dom (map_of e1) then AList.update ''resource'' res3 e1' else e1')"
  from r res have e': "e' = JObj (AList.delete ''_generated_uuid'' e2)"
    unfolding e2_def e1'_def res3_def nu_def stash_def
    by (auto simp: rewrite_entry_def Let_def case_prod_beta simp del: rewrite_references.simps)
  have res3: "res3 = map_refs ?R (JObj (add_identifier (AList.update ''id'' nu res) (to_urn nu)))"
    unfolding res3_def by (rule rewrite_fst)
  have other: "\<And>k. k \<noteq> ''fullUrl'' \<Longrightarrow> k \<noteq> ''_generated_uuid'' \<Longrightarrow> k \<noteq> ''resource'' \<Longrightarrow>
      map_of (AList.delete ''_generated_uuid'' e2) k = map_of e1 k"
    by (simp add: e2_def e1'_def delete_conv' update_conv')
  show ?thesis
  proof (cases p)
    case Nil
    with g other[of "''reference''"] e' show ?thesis by simp
  next
    case (Cons s rest)
    show ?thesis
    proof (cases s)
      case (Idx i)
      with g Cons show ?thesis by simp
    next
      case (Key k)
      with nr Cons have k: "k \<noteq> ''fullUrl''" "k \<noteq> ''_generated_uuid''"
        "k = ''resource'' \<Longrightarrow> \<not> replaced_rec rest" by auto
      from g Cons Key obtain w where w: "map_of e1 k = Some w"
        "jget w (rest @ [Key ''reference'']) = Some (JStr v)"
        by (auto split: option.splits)
      show ?thesis
      proof (cases "k = ''resource''")
        case False
        with k other[of k] w e' Cons Key show ?thesis by simp
      next
        case True
        with w res have wres: "w = JObj res" by (simp add: entry_resource_def)
        from True w have "''resource'' \<in> dom (map_of e1)" by auto
        then have "map_of (AList.delete ''_generated_uuid'' e2) ''resource'' = Some res3"
          by (simp add: e2_def delete_conv' update_conv')
        moreover
        from w(2) wres k(3)[OF True]
        have "jget (JObj (add_identifier (AList.update ''id'' nu res) (to_urn nu)))
                (relocate_rec rest @ [Key ''reference'']) = Some (JStr v)"
          by (intro jget_add_identifier) auto
        then have "jget res3 (relocate_rec rest @ [Key ''reference'']) = Some (JStr (?R v))"
          unfolding res3 by (rule jget_map_refs_ref)
        ultimately show ?thesis using e' Cons Key True by simp
      qed
    qed
  qed
qed

lemma rewrite_loop_pointwise:
  assumes "rewrite_loop gen ix es n U = Inr (es', n', U')"
  shows "length es' = length es \<and>
    (\<forall>i<length es. \<exists>ni Ui ni' Ui'. rewrite_entry gen ix (es ! i) ni Ui = Inr (es' ! i, ni', Ui'))"
  using assms
proof (induction es arbitrary: n U es' n' U')
  case Nil
  then show ?case by simp
next
  case (Cons a es)
  from Cons.prems obtain a' n1 U1 es1 where
    a: "rewrite_entry gen ix a n U = Inr (a', n1, U1)" and
    l: "rewrite_loop gen ix es n1 U1 = Inr (es1, n', U')" and
    e: "es' = a' # es1"
    by (auto split: sum.splits)
  from Cons.IH[OF l] have ih: "length es1 = length es"
    "\<forall>i<length es. \<exists>ni Ui ni' Ui'. rewrite_entry gen ix (es ! i) ni Ui = Inr (es1 ! i, ni', Ui')"
    by blast+
  show ?case
  proof (intro conjI allI impI)
    show "length es' = length (a # es)" using e ih(1) by simp
  next
    fix i assume "i < length (a # es)"
    then show "\<exists>ni Ui ni' Ui'. rewrite_entry gen ix ((a # es) ! i) ni Ui = Inr (es' ! i, ni', Ui')"
      using a e ih(2) by (cases i) auto
  qed
qed

section \<open>Fields through the whole transform\<close>

lemma map_of_assign_bundle_id:
  "k \<noteq> ''id'' \<Longrightarrow> k \<noteq> ''identifier'' \<Longrightarrow> map_of (assign_bundle_id u bundle) k = map_of bundle k"
  by (auto simp: assign_bundle_id_def Let_def update_conv' split: option.splits json.splits)

lemma map_of_store_entries:
  "k \<noteq> ''entry'' \<Longrightarrow> map_of (store_entries es b) k = map_of b k"
  by (auto simp: store_entries_def update_conv' split: option.splits json.splits)

lemma relocate_not_entry:
  "k \<noteq> ''entry'' \<Longrightarrow> relocate (Key k # rest) = relocate_rec (Key k # rest)"
  "k \<noteq> ''entry'' \<Longrightarrow> replaced (Key k # rest) = replaced_rec (Key k # rest)"
  by (cases "Key k # rest" rule: relocate.cases; simp)+

lemma relocate_rec_hd: "\<exists>rest'. relocate_rec (Key k # rest) = Key k # rest'"
  by (cases "Key k # rest" rule: relocate_rec.cases) auto

lemma collect_uuid_map_entries:
  assumes c: "collect_uuid_map gen b0 n0 = Inr (b1, ix, n)"
    and w: "map_of b0 ''entry'' = Some w"
    and g: "jget w (s # t) = Some x"
  shows "\<exists>es0 es1 i. w = JArr es0 \<and> s = Idx i \<and> i < length es0 \<and>
           collect_loop gen es0 empty_indices n0 = Inr (es1, ix, n) \<and>
           b1 = AList.update ''entry'' (JArr es1) b0"
proof -
  from w have be: "bundle_entries b0 = w" by (simp add: bundle_entries_def)
  from c be obtain es0 es1 where
    it: "py_iter w = Inr es0" and
    cl: "collect_loop gen es0 empty_indices n0 = Inr (es1, ix, n)" and
    b1: "b1 = store_entries es1 b0"
    by (auto simp: collect_uuid_map_def split: sum.splits)
  note sh = collect_loop_shape[OF cl]
  show ?thesis
  proof (cases w)
    case (JArr xs)
    with it have "es0 = xs" by simp
    moreover from g JArr obtain i where "s = Idx i" "i < length xs"
      by (cases s) (auto split: if_splits)
    moreover from b1 w JArr have "b1 = AList.update ''entry'' (JArr es1) b0"
      by (simp add: store_entries_def)
    ultimately show ?thesis using JArr cl by blast
  next
    case (JObj kvs)
    with g obtain k where "s = Key k" "map_of kvs k \<noteq> None"
      by (cases s) (auto split: option.splits)
    then have "kvs \<noteq> []" by auto
    with it JObj have "0 < length es0" "es0 ! 0 = JStr (fst (kvs ! 0))"
      by (auto simp: nth_map)
    with sh obtain e where "JStr (fst (kvs ! 0)) = JObj e" by fastforce
    then show ?thesis by simp
  qed (use g in auto)
qed


lemma pre_final_field:
  assumes c: "collect_uuid_map gen (assign_bundle_id (gen 0) bundle) 1 = Inr (b1, ix, n)"
    and it: "py_iter (bundle_entries b1) = Inr es1"
    and l: "rewrite_loop gen ix es1 n {} = Inr (es2, n', U)"
    and g: "jget (JObj bundle) (p @ [Key ''reference'']) = Some (JStr v)"
    and nr: "\<not> replaced p"
  shows "\<exists>v'. jget (JObj (store_entries es2 b1)) (relocate p @ [Key ''reference'']) = Some (JStr v') \<and>
           (v' = v \<or> v' = resolve (by_fullurl ix) (by_typeid_str ix) v)"
proof -
  let ?b0 = "assign_bundle_id (gen 0) bundle"
  let ?b4 = "store_entries es2 b1"
  have b1_other: "\<And>k. k \<noteq> ''entry'' \<Longrightarrow> map_of b1 k = map_of ?b0 k"
    using c by (auto simp: collect_uuid_map_def map_of_store_entries split: sum.splits)
  have b4_other: "\<And>k. k \<noteq> ''entry'' \<Longrightarrow> map_of ?b4 k = map_of ?b0 k"
    by (simp add: map_of_store_entries b1_other)
  show ?thesis
  proof (cases p)
    case Nil
    with g have "jget (JObj ?b0) (relocate_rec [] @ [Key ''reference'']) = Some (JStr v)"
      by (intro jget_assign_bundle_id) auto
    with Nil b4_other[of "''reference''"] show ?thesis by simp
  next
    case (Cons s rest)
    show ?thesis
    proof (cases s)
      case (Idx i)
      with g Cons show ?thesis by simp
    next
      case (Key k)
      show ?thesis
      proof (cases "k = ''entry''")
        case False
        with nr Cons Key have "\<not> replaced_rec p" by (simp add: relocate_not_entry)
        with g have "jget (JObj ?b0) (relocate_rec p @ [Key ''reference'']) = Some (JStr v)"
          by (rule jget_assign_bundle_id)
        moreover obtain rest' where r': "relocate_rec (Key k # rest) = Key k # rest'"
          using relocate_rec_hd by blast
        moreover have "relocate p = relocate_rec p"
          using False Cons Key by (simp add: relocate_not_entry)
        ultimately show ?thesis using b4_other[OF False] Cons Key by simp
      next
        case True
        from g Cons Key True obtain w where w: "map_of bundle ''entry'' = Some w"
          "jget w (rest @ [Key ''reference'']) = Some (JStr v)"
          by (auto split: option.splits)
        from w(1) have w0: "map_of ?b0 ''entry'' = Some w"
          by (simp add: map_of_assign_bundle_id)
        obtain s1 t where st: "rest @ [Key ''reference''] = s1 # t"
          by (cases "rest @ [Key ''reference'']") auto
        from collect_uuid_map_entries[OF c w0 w(2)[unfolded st]]
        obtain es0 es1' i where e: "w = JArr es0" "s1 = Idx i" "i < length es0"
          "collect_loop gen es0 empty_indices 1 = Inr (es1', ix, n)"
          "b1 = AList.update ''entry'' (JArr es1') ?b0"
          by blast
        from st e(2) obtain rest2 where r2: "rest = Idx i # rest2" "t = rest2 @ [Key ''reference'']"
          by (cases rest) auto
        from e(5) it have es1: "es1 = es1'"
          by (simp add: bundle_entries_def update_conv')
        from collect_loop_shape[OF e(4)] e(3) obtain e0 where
          e0: "es0 ! i = JObj e0" "es1' ! i = JObj (setdefault ''_generated_uuid'' (JStr (gen (1 + i))) e0)"
          "length es1' = length es0"
          by blast
        from rewrite_loop_pointwise[OF l] es1 e0(3) e(3) obtain ni Ui ni' Ui' where
          re: "rewrite_entry gen ix (es1' ! i) ni Ui = Inr (es2 ! i, ni', Ui')" and
          len: "length es2 = length es0"
          by (metis (no_types, lifting))
        from nr Cons Key True r2 have nre: "\<not> replaced_entry rest2" by simp
        from w(2) st e r2 e0(1) have g0: "jget (JObj e0) (rest2 @ [Key ''reference'']) = Some (JStr v)"
          by simp
        have g1: "jget (JObj (setdefault ''_generated_uuid'' (JStr (gen (1 + i))) e0))
            (rest2 @ [Key ''reference'']) = Some (JStr v)"
        proof (cases rest2)
          case Nil
          with g0 show ?thesis by (simp add: map_of_setdefault)
        next
          case (Cons s2 rest3)
          with g0 obtain k2 where "s2 = Key k2" by (cases s2) auto
          moreover with nre Cons have "k2 \<noteq> ''_generated_uuid''" by auto
          ultimately show ?thesis using g0 Cons by (simp add: map_of_setdefault)
        qed
        from rewrite_entry_field[OF re[unfolded e0(2)] g1 nre]
        obtain v' where v': "jget (es2 ! i) (relocate_entry rest2 @ [Key ''reference'']) = Some (JStr v')"
          "v' = v \<or> v' = resolve (by_fullurl ix) (by_typeid_str ix) v"
          by blast
        have "map_of ?b4 ''entry'' = Some (JArr es2)"
          using e(5) by (simp add: store_entries_def update_conv')
        with v' len e(3) Cons Key True r2 show ?thesis by auto
      qed
    qed
  qed
qed

section \<open>The indices of a run\<close>

lemma collect_entry_index:
  assumes "collect_entry gen e ix n = Inr (e', ix', n')"
  shows "by_typeid_str ix' =
           (case entry_key e of Some k \<Rightarrow> (by_typeid_str ix)(k \<mapsto> to_urn (JStr (gen n)))
            | None \<Rightarrow> by_typeid_str ix)"
    and "by_fullurl ix' =
           (case entry_locator e of Some f \<Rightarrow> (by_fullurl ix)(f \<mapsto> to_urn (JStr (gen n)))
            | None \<Rightarrow> by_fullurl ix)"
proof -
  from collect_entry_shape[OF assms] obtain e1 res where
    e: "e = JObj e1" "entry_resource e1 = JObj res" by blast
  define ix1 where "ix1 = (case dict_get e1 ''fullUrl'' of
      JStr f \<Rightarrow> ix\<lparr>by_fullurl := (by_fullurl ix)(py_strip is_space f \<mapsto> to_urn (JStr (gen n)))\<rparr>
    | _ \<Rightarrow> ix)"
  have f1: "by_fullurl ix1 =
      (case entry_locator e of Some f \<Rightarrow> (by_fullurl ix)(f \<mapsto> to_urn (JStr (gen n)))
       | None \<Rightarrow> by_fullurl ix)"
    and f2: "by_typeid_str ix1 = by_typeid_str ix"
    by (simp_all add: ix1_def entry_locator_def e split: json.splits)
  have "ix' = (case entry_key e of
       Some k \<Rightarrow> ix1\<lparr>by_type_id := (by_type_id ix1)((dict_get res ''resourceType'',
                       (case dict_get res ''id'' of JStr oid \<Rightarrow> oid | _ \<Rightarrow> [])) \<mapsto> to_urn (JStr (gen n))),
                    by_typeid_str := (by_typeid_str ix1)(k \<mapsto> to_urn (JStr (gen n)))\<rparr>
     | None \<Rightarrow> ix1)"
    using assms
    by (cases "dict_get res ''id''")
       (auto simp: collect_entry_def e entry_key_def Let_def ix1_def[symmetric] split: if_splits)
  then show "by_typeid_str ix' =
           (case entry_key e of Some k \<Rightarrow> (by_typeid_str ix)(k \<mapsto> to_urn (JStr (gen n)))
            | None \<Rightarrow> by_typeid_str ix)"
    and "by_fullurl ix' =
           (case entry_locator e of Some f \<Rightarrow> (by_fullurl ix)(f \<mapsto> to_urn (JStr (gen n)))
            | None \<Rightarrow> by_fullurl ix)"
    using f1 f2 by (auto split: option.splits)
qed

lemma collect_loop_Cons:
  assumes "collect_loop gen (a # es) ix n = Inr (es', ix', n')"
  obtains a' ix1 es1 where "collect_entry gen a ix n = Inr (a', ix1, Suc n)"
    "collect_loop gen es ix1 (Suc n) = Inr (es1, ix', n')"
proof -
  from assms obtain a' ix1 n1 es1 where a: "collect_entry gen a ix n = Inr (a', ix1, n1)"
    and l: "collect_loop gen es ix1 n1 = Inr (es1, ix', n')"
    by (auto split: sum.splits)
  from collect_entry_shape[OF a] have "n1 = Suc n" by blast
  with a l that show thesis by blast
qed

lemma collect_loop_typeid_none:
  assumes "collect_loop gen es ix n = Inr (es', ix', n')"
    and "\<forall>j<length es. entry_key (es ! j) \<noteq> Some key"
  shows "by_typeid_str ix' key = by_typeid_str ix key"
  using assms
proof (induction es arbitrary: ix n es')
  case Nil
  then show ?case by simp
next
  case (Cons a es)
  from Cons.prems(1) obtain a' ix1 es1 where a: "collect_entry gen a ix n = Inr (a', ix1, Suc n)"
    and l: "collect_loop gen es ix1 (Suc n) = Inr (es1, ix', n')"
    by (rule collect_loop_Cons)
  from Cons.prems(2) have "entry_key a \<noteq> Some key" "\<forall>j<length es. entry_key (es ! j) \<noteq> Some key"
    by auto
  with collect_entry_index(1)[OF a] Cons.IH[OF l] show ?case
    by (auto split: option.splits)
qed

lemma collect_loop_fullurl_none:
  assumes "collect_loop gen es ix n = Inr (es', ix', n')"
    and "\<forall>j<length es. entry_locator (es ! j) \<noteq> Some key"
  shows "by_fullurl ix' key = by_fullurl ix key"
  using assms
proof (induction es arbitrary: ix n es')
  case Nil
  then show ?case by simp
next
  case (Cons a es)
  from Cons.prems(1) obtain a' ix1 es1 where a: "collect_entry gen a ix n = Inr (a', ix1, Suc n)"
    and l: "collect_loop gen es ix1 (Suc n) = Inr (es1, ix', n')"
    by (rule collect_loop_Cons)
  from Cons.prems(2) have "entry_locator a \<noteq> Some key"
    "\<forall>j<length es. entry_locator (es ! j) \<noteq> Some key"
    by auto
  with collect_entry_index(2)[OF a] Cons.IH[OF l] show ?case
    by (auto split: option.splits)
qed

lemma collect_loop_typeid_last:
  assumes "collect_loop gen es ix n = Inr (es', ix', n')"
    and "j < length es" "entry_key (es ! j) = Some key"
    and "\<forall>j'<length es. j < j' \<longrightarrow> entry_key (es ! j') \<noteq> Some key"
  shows "by_typeid_str ix' key = Some (to_urn (JStr (gen (n + j))))"
  using assms
proof (induction es arbitrary: ix n es' j)
  case Nil
  then show ?case by simp
next
  case (Cons a es)
  from Cons.prems(1) obtain a' ix1 es1 where a: "collect_entry gen a ix n = Inr (a', ix1, Suc n)"
    and l: "collect_loop gen es ix1 (Suc n) = Inr (es1, ix', n')"
    by (rule collect_loop_Cons)
  show ?case
  proof (cases j)
    case 0
    with Cons.prems(3) have k: "entry_key a = Some key" by simp
    from Cons.prems(4) 0 have "\<forall>j'<length es. entry_key (es ! j') \<noteq> Some key" by auto
    with l have "by_typeid_str ix' key = by_typeid_str ix1 key"
      by (rule collect_loop_typeid_none)
    with collect_entry_index(1)[OF a] k 0 show ?thesis by simp
  next
    case (Suc j0)
    with Cons.prems have "j0 < length es" "entry_key (es ! j0) = Some key"
      "\<forall>j'<length es. j0 < j' \<longrightarrow> entry_key (es ! j') \<noteq> Some key"
      by auto
    from Cons.IH[OF l this] Suc show ?thesis by simp
  qed
qed

lemma collect_loop_fullurl_last:
  assumes "collect_loop gen es ix n = Inr (es', ix', n')"
    and "j < length es" "entry_locator (es ! j) = Some key"
    and "\<forall>j'<length es. j < j' \<longrightarrow> entry_locator (es ! j') \<noteq> Some key"
  shows "by_fullurl ix' key = Some (to_urn (JStr (gen (n + j))))"
  using assms
proof (induction es arbitrary: ix n es' j)
  case Nil
  then show ?case by simp
next
  case (Cons a es)
  from Cons.prems(1) obtain a' ix1 es1 where a: "collect_entry gen a ix n = Inr (a', ix1, Suc n)"
    and l: "collect_loop gen es ix1 (Suc n) = Inr (es1, ix', n')"
    by (rule collect_loop_Cons)
  show ?case
  proof (cases j)
    case 0
    with Cons.prems(3) have k: "entry_locator a = Some key" by simp
    from Cons.prems(4) 0 have "\<forall>j'<length es. entry_locator (es ! j') \<noteq> Some key" by auto
    with l have "by_fullurl ix' key = by_fullurl ix1 key"
      by (rule collect_loop_fullurl_none)
    with collect_entry_index(2)[OF a] k 0 show ?thesis by simp
  next
    case (Suc j0)
    with Cons.prems have "j0 < length es" "entry_locator (es ! j0) = Some key"
      "\<forall>j'<length es. j0 < j' \<longrightarrow> entry_locator (es ! j') \<noteq> Some key"
      by auto
    from Cons.IH[OF l this] Suc show ?thesis by simp
  qed
qed

lemma run_indices_collect:
  assumes ok: "transform_bundle gen bundle = Inr r"
    and es: "map_of bundle ''entry'' = Some (JArr es)"
  shows "\<exists>es1 n. collect_loop gen es empty_indices 1 = Inr (es1, run_indices gen bundle, n)"
proof -
  from ok obtain b1 ix n where
    c: "collect_uuid_map gen (assign_bundle_id (gen 0) bundle) 1 = Inr (b1, ix, n)"
    by (rule transform_bundle_Inr)
  then have ri: "run_indices gen bundle = ix" by (simp add: run_indices_def)
  from es have "bundle_entries (assign_bundle_id (gen 0) bundle) = JArr es"
    by (simp add: bundle_entries_def map_of_assign_bundle_id)
  with c ri show ?thesis
    by (auto simp: collect_uuid_map_def split: sum.splits)
qed

section \<open>The matcher on the strings of a run\<close>

lemma strip_right_id: "u \<noteq> [] \<Longrightarrow> \<not> P (last u) \<Longrightarrow> strip_right P u = u"
  by (cases u rule: rev_cases) (auto simp: strip_right_def)

lemma is_hex_plain: "is_hex c \<Longrightarrow> \<not> is_space c \<and> \<not> is_quote c"
  by (auto simp: is_hex_def is_space_def is_quote_def)

lemma uuid4_last: "is_uuid4 u \<Longrightarrow> u \<noteq> [] \<and> is_hex (last u)"
proof -
  assume u: "is_uuid4 u"
  then have len: "length u = 36" by (simp add: is_uuid4_def)
  from u have "\<forall>i\<in>set [0..<36]. if i \<in> {8, 13, 18, 23} then u ! i = CHR ''-'' else is_hex (u ! i)"
    by (simp add: is_uuid4_def list_all_iff)
  then have "is_hex (u ! 35)" by (drule_tac x = 35 in bspec) auto
  moreover from len have ne: "u \<noteq> []" by auto
  moreover from len ne have "last u = u ! 35" by (simp add: last_conv_nth)
  ultimately show ?thesis by simp
qed

lemma sanitize_urn_uuid:
  assumes "is_uuid4 u"
  shows "sanitize_ref_string (to_urn (JStr u)) = to_urn (JStr u)"
proof -
  from uuid4_last[OF assms] is_hex_plain have "u \<noteq> []" "\<not> is_space (last u)" "\<not> is_quote (last u)"
    by blast+
  then have "strip_right is_quote (strip_right is_space u) = u"
    by (simp add: strip_right_id)
  then show ?thesis by (simp add: to_urn_def py_str_def sanitize_urn)
qed

lemma map_reference_urn_uuid:
  assumes "is_uuid4 u"
  shows "map_reference (to_urn (JStr u)) bf bt = Some (to_urn (JStr u))"
  using sanitize_urn_uuid[OF assms]
  by (simp add: map_reference_def Let_def startswith_def to_urn_def py_str_def)

lemma REF_RE_match_not_marked:
  assumes "REF_RE_match c = Some g"
  shows "\<not> startswith c URN_PREFIX \<and> \<not> startswith c ''#''"
proof -
  { fix rest assume "c = URN_PREFIX @ rest"
    then have "REF_RE_match c = None"
      by (simp add: URN_PREFIX_def REF_RE_match_def match_base_def match_groups_def lit_def
          plus_class_def is_alpha_def is_alnum_def)
    with assms have False by simp }
  moreover
  { fix rest assume "c = ''#'' @ rest"
    then have "REF_RE_match c = None"
      by (simp add: REF_RE_match_def match_base_def match_groups_def lit_def is_alpha_def)
    with assms have False by simp }
  ultimately show ?thesis by (auto simp: startswith_def prefix_def)
qed

lemma map_reference_by_key:
  assumes "REF_RE_match (sanitize_ref_string v) = Some (kind, lid)"
    and "bf (sanitize_ref_string v) = None"
  shows "map_reference v bf bt = bt (kind @ ''/'' @ lid)"
  using assms REF_RE_match_not_marked[OF assms(1)]
  by (auto simp: map_reference_def Let_def dom_def)

lemma map_reference_by_locator:
  assumes "REF_RE_match (sanitize_ref_string v) = Some g"
    and "bf (sanitize_ref_string v) = Some u"
  shows "map_reference v bf bt = Some u"
  using assms(2) REF_RE_match_not_marked[OF assms(1)]
  by (auto simp: map_reference_def Let_def dom_def)

section \<open>A reference field from the input to the output\<close>

lemma has_kind_id_entry_key:
  "has_kind_id e kind lid \<Longrightarrow> kind \<noteq> [] \<Longrightarrow> entry_key e = Some (kind @ ''/'' @ lid)"
  by (auto simp: has_kind_id_def entry_key_def py_str_def split: json.splits)

lemma match_groups_kind_nonempty: "match_groups s = Some (kind, lid) \<Longrightarrow> kind \<noteq> []"
  by (cases s) (auto simp: match_groups_def split: option.splits if_splits)

lemma REF_RE_match_kind_nonempty: "REF_RE_match c = Some (kind, lid) \<Longrightarrow> kind \<noteq> []"
  by (auto simp: REF_RE_match_def split: option.splits dest: match_groups_kind_nonempty)

lemma map_reference_last_record:
  assumes cl: "collect_loop gen es empty_indices 1 = Inr (es1, ix, n)"
    and m: "REF_RE_match (sanitize_ref_string v) = Some (kind, lid)"
    and j: "j < length es" "has_kind_id (es ! j) kind lid"
    and last: "\<forall>i<length es. j < i \<longrightarrow> entry_key (es ! i) \<noteq> Some (kind @ ''/'' @ lid)"
    and loc: "\<forall>i<length es. entry_locator (es ! i) = Some (sanitize_ref_string v) \<longrightarrow>
                i \<le> j \<and> entry_locator (es ! j) = Some (sanitize_ref_string v)"
  shows "map_reference v (by_fullurl ix) (by_typeid_str ix) = Some (to_urn (JStr (gen (Suc j))))"
proof (cases "\<exists>i<length es. entry_locator (es ! i) = Some (sanitize_ref_string v)")
  case True
  with loc have lj: "entry_locator (es ! j) = Some (sanitize_ref_string v)" by blast
  from loc have after: "\<forall>i<length es. j < i \<longrightarrow> entry_locator (es ! i) \<noteq> Some (sanitize_ref_string v)"
    by fastforce
  from collect_loop_fullurl_last[OF cl j(1) lj after]
  have "by_fullurl ix (sanitize_ref_string v) = Some (to_urn (JStr (gen (Suc j))))" by simp
  with m show ?thesis by (rule map_reference_by_locator)
next
  case False
  then have "\<forall>i<length es. entry_locator (es ! i) \<noteq> Some (sanitize_ref_string v)" by blast
  from collect_loop_fullurl_none[OF cl this]
  have bf: "by_fullurl ix (sanitize_ref_string v) = None" by (simp add: empty_indices_def)
  from j(2) REF_RE_match_kind_nonempty[OF m] have k: "entry_key (es ! j) = Some (kind @ ''/'' @ lid)"
    by (rule has_kind_id_entry_key)
  from collect_loop_typeid_last[OF cl j(1) k last]
  have bt: "by_typeid_str ix (kind @ ''/'' @ lid) = Some (to_urn (JStr (gen (Suc j))))" by simp
  from map_reference_by_key[where bf = "by_fullurl ix" and bt = "by_typeid_str ix", OF m bf] bt
  show ?thesis by simp
qed

lemma transform_field:
  assumes ok: "transform_bundle gen bundle = Inr r"
    and g: "jget (JObj bundle) (p @ [Key ''reference'']) = Some (JStr v)"
    and nr: "\<not> replaced p"
  shows "\<exists>v'. (v' = v \<or> v' = resolve (by_fullurl (run_indices gen bundle))
                              (by_typeid_str (run_indices gen bundle)) v) \<and>
     jget (doc r) (relocate p @ [Key ''reference'']) =
       Some (JStr (resolve (by_fullurl (run_indices gen bundle))
                           (by_typeid_str (run_indices gen bundle)) v')) \<and>
     (map_reference v' (by_fullurl (run_indices gen bundle))
                       (by_typeid_str (run_indices gen bundle)) = None \<longrightarrow> v' \<in> unknown_refs r)"
proof -
  from ok obtain b1 ix n es1 es2 n' U where
    c: "collect_uuid_map gen (assign_bundle_id (gen 0) bundle) 1 = Inr (b1, ix, n)" and
    it: "py_iter (bundle_entries b1) = Inr es1" and
    l: "rewrite_loop gen ix es1 n {} = Inr (es2, n', U)" and
    d: "doc r = map_refs (resolve (by_fullurl ix) (by_typeid_str ix)) (JObj (store_entries es2 b1))" and
    u: "unknown_refs r = snd (rewrite_references (JObj (store_entries es2 b1))
        (by_fullurl ix) (by_typeid_str ix) U)"
    by (rule transform_bundle_Inr)
  from c have ri: "run_indices gen bundle = ix" by (simp add: run_indices_def)
  from pre_final_field[OF c it l g nr] obtain v' where
    v': "jget (JObj (store_entries es2 b1)) (relocate p @ [Key ''reference'']) = Some (JStr v')"
        "v' = v \<or> v' = resolve (by_fullurl ix) (by_typeid_str ix) v"
    by blast
  from v'(1) have "jget (doc r) (relocate p @ [Key ''reference''])
      = Some (JStr (resolve (by_fullurl ix) (by_typeid_str ix) v'))"
    unfolding d by (rule jget_map_refs_ref)
  moreover have "map_reference v' (by_fullurl ix) (by_typeid_str ix) = None \<longrightarrow> v' \<in> unknown_refs r"
    unfolding u using rewrite_unknown_at[OF v'(1)] by blast
  ultimately show ?thesis unfolding ri using v'(2) by (intro exI[of _ v']) simp
qed

lemma transform_field_resolved:
  assumes ok: "transform_bundle gen bundle = Inr r"
    and g: "jget (JObj bundle) (p @ [Key ''reference'']) = Some (JStr v)"
    and nr: "\<not> replaced p"
    and m: "map_reference v (by_fullurl (run_indices gen bundle))
              (by_typeid_str (run_indices gen bundle)) = Some m"
    and mm: "map_reference m (by_fullurl (run_indices gen bundle))
              (by_typeid_str (run_indices gen bundle)) = Some m"
  shows "jget (doc r) (relocate p @ [Key ''reference'']) = Some (JStr m)"
  using transform_field[OF ok g nr] m mm by (auto simp: resolve_def)

lemma transform_field_unresolved:
  assumes ok: "transform_bundle gen bundle = Inr r"
    and g: "jget (JObj bundle) (p @ [Key ''reference'']) = Some (JStr v)"
    and nr: "\<not> replaced p"
    and m: "map_reference v (by_fullurl (run_indices gen bundle))
              (by_typeid_str (run_indices gen bundle)) = None"
  shows "jget (doc r) (relocate p @ [Key ''reference'']) = Some (JStr v) \<and> v \<in> unknown_refs r"
  using transform_field[OF ok g nr] m by (auto simp: resolve_def)

section \<open>Reference closure\<close>

lemma demo_gen_uuid4: "\<forall>n. is_uuid4 (demo_gen n)"
proof -
  have "is_uuid4 (demo_gen 0)" "is_uuid4 (demo_gen 1)" "is_uuid4 (demo_gen 2)" "is_uuid4 (demo_gen 3)"
    by code_simp+
  then show ?thesis by (simp add: demo_gen_def)
qed

lemma list_all_nth: "list_all P xs \<Longrightarrow> \<forall>i<length xs. P (xs ! i)"
  by (simp add: list_all_length)

lemma list_all_drop_nth:
  assumes "list_all P (drop (Suc j) xs)"
  shows "\<forall>i<length xs. j < i \<longrightarrow> P (xs ! i)"
proof (intro allI impI)
  fix i assume i: "i < length xs" "j < i"
  then have "i - Suc j < length (drop (Suc j) xs)" by simp
  with assms have "P (drop (Suc j) xs ! (i - Suc j))" by (simp add: list_all_length)
  with i show "P (xs ! i)" by simp
qed

lemma locator_none_last:
  assumes "list_all (\<lambda>e. entry_locator e \<noteq> Some c) es"
  shows "\<forall>i<length es. entry_locator (es ! i) = Some c \<longrightarrow> i \<le> j \<and> entry_locator (es ! j) = Some c"
  using assms by (simp add: list_all_length)

lemma locator_own_last:
  assumes "entry_locator (es ! j) = Some c"
    and "list_all (\<lambda>e. entry_locator e \<noteq> Some c) (drop (Suc j) es)"
  shows "\<forall>i<length es. entry_locator (es ! i) = Some c \<longrightarrow> i \<le> j \<and> entry_locator (es ! j) = Some c"
proof (intro allI impI)
  fix i assume i: "i < length es" "entry_locator (es ! i) = Some c"
  from list_all_drop_nth[OF assms(2)] i have "\<not> j < i" by blast
  with assms(1) show "i \<le> j \<and> entry_locator (es ! j) = Some c" by simp
qed

text \<open>
  C1, as the code has it. Take a string \<open>v\<close> stored under \<^verbatim>\<open>reference\<close> anywhere in the
  bundle outside the identity fields that the transform replaces. Let the sanitized \<open>v\<close>
  match the reference pattern with the groups \<open>kind\<close> and \<open>lid\<close>, and let entry \<open>j\<close> be the
  last entry whose record has that kind and local identity. If the sanitized \<open>v\<close> is the
  prior locator of some entry, let entry \<open>j\<close> be the last entry with that locator; so the
  reference may well be the locator of the record it names. Then after the transform the
  field holds the canonical encoding of the identifier drawn for entry \<open>j\<close> in the
  assignment pass (the draw number \<open>j + 1\<close>, the bundle's own being number 0). Nothing is
  asked of the order of the entries: the referring entry may come before entry \<open>j\<close>.
\<close>

theorem reference_closure:
  assumes ok: "transform_bundle gen bundle = Inr r"
    and uuid: "\<forall>n. is_uuid4 (gen n)"
    and es: "map_of bundle ''entry'' = Some (JArr es)"
    and g: "jget (JObj bundle) (p @ [Key ''reference'']) = Some (JStr v)"
    and nr: "\<not> replaced p"
    and m: "REF_RE_match (sanitize_ref_string v) = Some (kind, lid)"
    and j: "j < length es" "has_kind_id (es ! j) kind lid"
    and last: "\<forall>i<length es. j < i \<longrightarrow> entry_key (es ! i) \<noteq> Some (kind @ ''/'' @ lid)"
    and loc: "\<forall>i<length es. entry_locator (es ! i) = Some (sanitize_ref_string v) \<longrightarrow>
                i \<le> j \<and> entry_locator (es ! j) = Some (sanitize_ref_string v)"
  shows "jget (doc r) (relocate p @ [Key ''reference'']) = Some (JStr (to_urn (JStr (gen (Suc j)))))"
proof -
  let ?ix = "run_indices gen bundle"
  from run_indices_collect[OF ok es] obtain es1 n where
    cl: "collect_loop gen es empty_indices 1 = Inr (es1, ?ix, n)" by blast
  from cl m j last loc
  have 1: "map_reference v (by_fullurl ?ix) (by_typeid_str ?ix) = Some (to_urn (JStr (gen (Suc j))))"
    by (rule map_reference_last_record)
  from uuid have "is_uuid4 (gen (Suc j))" by simp
  then have 2: "map_reference (to_urn (JStr (gen (Suc j)))) (by_fullurl ?ix) (by_typeid_str ?ix)
      = Some (to_urn (JStr (gen (Suc j))))"
    by (rule map_reference_urn_uuid)
  from transform_field_resolved[OF ok g nr 1 2] show ?thesis .
qed

theorem reference_closure_witness:
  "field_after demo_gen sample_bundle
     [Key ''entry'', Idx 0, Key ''resource'', Key ''subject'', Key ''reference'']
   = Some (JStr ''urn:uuid:2c2c2c2c-2222-4222-a222-222222222222'') \<and>
   field_after demo_gen located_bundle
     [Key ''entry'', Idx 0, Key ''resource'', Key ''performer'', Idx 0, Key ''reference'']
   = Some (JStr ''urn:uuid:3d3d3d3d-3333-4333-b333-333333333333'')"
proof -
  have "case transform_bundle demo_gen sample_bundle of Inr r \<Rightarrow> True | Inl e \<Rightarrow> False"
    by code_simp
  then obtain r where ok: "transform_bundle demo_gen sample_bundle = Inr r"
    by (auto split: sum.splits)
  have es: "map_of sample_bundle ''entry'' = Some (JArr sample_entries)"
    by (simp add: sample_bundle_def)
  have g: "jget (JObj sample_bundle) ([Key ''entry'', Idx 0, Key ''resource'', Key ''subject'']
      @ [Key ''reference'']) = Some (JStr ''Patient/p1'')"
    by code_simp
  have nr: "\<not> replaced [Key ''entry'', Idx 0, Key ''resource'', Key ''subject'']"
    by simp
  have m: "REF_RE_match (sanitize_ref_string ''Patient/p1'') = Some (''Patient'', ''p1'')"
    by code_simp
  have j: "1 < length sample_entries" "has_kind_id (sample_entries ! 1) ''Patient'' ''p1''"
    by code_simp+
  have "list_all (\<lambda>e. entry_key e \<noteq> Some (''Patient'' @ ''/'' @ ''p1''))
      (drop (Suc 1) sample_entries)"
    by code_simp
  then have last: "\<forall>i<length sample_entries. 1 < i \<longrightarrow>
      entry_key (sample_entries ! i) \<noteq> Some (''Patient'' @ ''/'' @ ''p1'')"
    by (rule list_all_drop_nth)
  have "list_all (\<lambda>e. entry_locator e \<noteq> Some (sanitize_ref_string ''Patient/p1'')) sample_entries"
    by code_simp
  then have loc: "\<forall>i<length sample_entries.
      entry_locator (sample_entries ! i) = Some (sanitize_ref_string ''Patient/p1'') \<longrightarrow>
      i \<le> 1 \<and> entry_locator (sample_entries ! 1) = Some (sanitize_ref_string ''Patient/p1'')"
    by (rule locator_none_last)
  from reference_closure [OF ok demo_gen_uuid4 es g nr m j last loc]
  have "jget (doc r) [Key ''entry'', Idx 0, Key ''resource'', Key ''subject'', Key ''reference'']
      = Some (JStr (to_urn (JStr (demo_gen 2))))"
    by (simp add: numeral_2_eq_2)
  moreover have "to_urn (JStr (demo_gen 2)) = ''urn:uuid:2c2c2c2c-2222-4222-a222-222222222222''"
    by code_simp
  ultimately have a: "field_after demo_gen sample_bundle
     [Key ''entry'', Idx 0, Key ''resource'', Key ''subject'', Key ''reference'']
     = Some (JStr ''urn:uuid:2c2c2c2c-2222-4222-a222-222222222222'')"
    using ok by (simp add: field_after_def)
  have "case transform_bundle demo_gen located_bundle of Inr r \<Rightarrow> True | Inl e \<Rightarrow> False"
    by code_simp
  then obtain r' where ok': "transform_bundle demo_gen located_bundle = Inr r'"
    by (auto split: sum.splits)
  have es': "map_of located_bundle ''entry'' = Some (JArr located_entries)"
    by (simp add: located_bundle_def)
  have g': "jget (JObj located_bundle)
      ([Key ''entry'', Idx 0, Key ''resource'', Key ''performer'', Idx 0] @ [Key ''reference''])
      = Some (JStr ''Practitioner/d1'')"
    by code_simp
  have nr': "\<not> replaced [Key ''entry'', Idx 0, Key ''resource'', Key ''performer'', Idx 0]"
    by simp
  have m': "REF_RE_match (sanitize_ref_string ''Practitioner/d1'') = Some (''Practitioner'', ''d1'')"
    by code_simp
  have j': "2 < length located_entries" "has_kind_id (located_entries ! 2) ''Practitioner'' ''d1''"
    by code_simp+
  have last': "\<forall>i<length located_entries. 2 < i \<longrightarrow>
      entry_key (located_entries ! i) \<noteq> Some (''Practitioner'' @ ''/'' @ ''d1'')"
    by (simp add: located_entries_def)
  have own: "entry_locator (located_entries ! 2) = Some (sanitize_ref_string ''Practitioner/d1'')"
    by code_simp
  have "list_all (\<lambda>e. entry_locator e \<noteq> Some (sanitize_ref_string ''Practitioner/d1''))
      (drop (Suc 2) located_entries)"
    by code_simp
  with own have loc': "\<forall>i<length located_entries.
      entry_locator (located_entries ! i) = Some (sanitize_ref_string ''Practitioner/d1'') \<longrightarrow>
      i \<le> 2 \<and> entry_locator (located_entries ! 2) = Some (sanitize_ref_string ''Practitioner/d1'')"
    by (rule locator_own_last)
  from reference_closure [OF ok' demo_gen_uuid4 es' g' nr' m' j' last' loc']
  have "jget (doc r') [Key ''entry'', Idx 0, Key ''resource'', Key ''performer'', Idx 0, Key ''reference'']
      = Some (JStr (to_urn (JStr (demo_gen 3))))"
    by (simp add: eval_nat_numeral)
  moreover have "to_urn (JStr (demo_gen 3)) = ''urn:uuid:3d3d3d3d-3333-4333-b333-333333333333''"
    by code_simp
  ultimately have b: "field_after demo_gen located_bundle
     [Key ''entry'', Idx 0, Key ''resource'', Key ''performer'', Idx 0, Key ''reference'']
     = Some (JStr ''urn:uuid:3d3d3d3d-3333-4333-b333-333333333333'')"
    using ok' by (simp add: field_after_def)
  from a b show ?thesis by simp
qed

text \<open>
  The claim fails when another entry has the reference as its prior locator: in
  \<open>locator_bundle\<close> the reference \<^verbatim>\<open>Patient/p1\<close> matches the kind and identity of the second
  record, and the transform puts the identifier of the first entry, whose prior locator
  is that string.
\<close>

theorem reference_closure_counterexample:
  "REF_RE_match (sanitize_ref_string ''Patient/p1'') = Some (''Patient'', ''p1'') \<and>
   has_kind_id (locator_entries ! 1) ''Patient'' ''p1'' \<and>
   field_after demo_gen locator_bundle
     [Key ''entry'', Idx 0, Key ''resource'', Key ''subject'', Key ''reference'']
     = Some (JStr ''urn:uuid:1b1b1b1b-1111-4111-9111-111111111111'') \<and>
   field_after demo_gen locator_bundle [Key ''entry'', Idx 1, Key ''resource'', Key ''id'']
     = Some (JStr ''2c2c2c2c-2222-4222-a222-222222222222'') \<and>
   field_after demo_gen locator_bundle [Key ''entry'', Idx 1, Key ''fullUrl'']
     = Some (JStr ''urn:uuid:2c2c2c2c-2222-4222-a222-222222222222'')"
  by code_simp

section \<open>References of the relative form\<close>

lemma idchar_plain:
  "is_idchar c \<Longrightarrow> \<not> is_space c \<and> \<not> is_quote c \<and> c \<noteq> CHR '':'' \<and> c \<noteq> CHR ''#'' \<and> c \<noteq> CHR ''/''"
  by (auto simp: is_idchar_def is_alnum_def is_alpha_def is_space_def is_quote_def)

lemma alnum_idchar: "is_alnum c \<Longrightarrow> is_idchar c"
  by (simp add: is_idchar_def)

lemma alpha_alnum: "is_alpha c \<Longrightarrow> is_alnum c"
  by (simp add: is_alnum_def)

lemma not_alnum_slash: "\<not> is_alnum (CHR ''/'')"
  by (simp add: is_alnum_def is_alpha_def)

lemma py_strip_id: "s \<noteq> [] \<Longrightarrow> \<not> P (hd s) \<Longrightarrow> \<not> P (last s) \<Longrightarrow> py_strip P s = s"
  using py_strip_keep_prefix[of s P "[]"] by (simp add: strip_right_def)

lemma lit_Some: "lit p s = Some r \<Longrightarrow> s = p @ r"
  by (auto simp: lit_def prefix_def split: if_splits)

lemma match_base_colon: "match_base s = Some r \<Longrightarrow> CHR '':'' \<in> set s"
proof -
  assume a: "match_base s = Some r"
  then obtain r0 where r0: "lit ''http'' s = Some r0"
    by (auto simp: match_base_def split: option.splits)
  with a obtain r1 where r1: "lit ''://'' (case lit ''s'' r0 of Some r \<Rightarrow> r | None \<Rightarrow> r0) = Some r1"
    by (auto simp: match_base_def split: option.splits)
  from lit_Some[OF r1] have "CHR '':'' \<in> set (case lit ''s'' r0 of Some r \<Rightarrow> r | None \<Rightarrow> r0)"
    by simp
  then have "CHR '':'' \<in> set r0"
    by (auto split: option.splits dest: lit_Some)
  with lit_Some[OF r0] show ?thesis by simp
qed

lemma kind_id_chars:
  assumes "is_kind kind" "is_local_id lid"
  shows "\<forall>c\<in>set (kind @ ''/'' @ lid). \<not> is_space c \<and> \<not> is_quote c \<and> c \<noteq> CHR '':'' \<and> c \<noteq> CHR ''#''"
proof -
  from assms(1) have "\<forall>c\<in>set kind. is_idchar c"
    by (cases kind) (auto simp: is_kind_def list_all_iff alnum_idchar alpha_alnum)
  moreover from assms(2) have "\<forall>c\<in>set lid. is_idchar c"
    by (simp add: is_local_id_def list_all_iff)
  ultimately have all: "\<forall>c\<in>set (kind @ ''/'' @ lid). is_idchar c \<or> c = CHR ''/''"
    by auto
  show ?thesis
  proof
    fix c assume "c \<in> set (kind @ ''/'' @ lid)"
    with all have "is_idchar c \<or> c = CHR ''/''" by blast
    then show "\<not> is_space c \<and> \<not> is_quote c \<and> c \<noteq> CHR '':'' \<and> c \<noteq> CHR ''#''"
    proof
      assume "is_idchar c"
      with idchar_plain show ?thesis by blast
    next
      assume "c = CHR ''/''"
      then show ?thesis by (simp add: is_space_def is_quote_def)
    qed
  qed
qed

lemma sanitize_kind_id:
  assumes "is_kind kind" "is_local_id lid"
  shows "sanitize_ref_string (kind @ ''/'' @ lid) = kind @ ''/'' @ lid"
proof -
  let ?v = "kind @ ''/'' @ lid"
  note ch = kind_id_chars[OF assms]
  from assms have ne: "?v \<noteq> []" by simp
  then have hl: "hd ?v \<in> set ?v" "last ?v \<in> set ?v" by (rule hd_in_set, rule last_in_set)
  with ch have 1: "py_strip is_space ?v = ?v" using ne by (intro py_strip_id) blast+
  from hl ch have 2: "py_strip is_quote ?v = ?v" using ne by (intro py_strip_id) blast+
  have 3: "\<not> startswith ?v URN_PREFIX"
  proof
    assume "startswith ?v URN_PREFIX"
    then obtain r where "?v = URN_PREFIX @ r" by (auto simp: startswith_def prefix_def)
    then have "CHR '':'' \<in> set ?v" by (simp add: URN_PREFIX_def)
    with ch show False by blast
  qed
  have 4: "\<not> startswith ?v ''#''"
  proof
    assume "startswith ?v ''#''"
    then obtain r where "?v = ''#'' @ r" by (auto simp: startswith_def prefix_def)
    then have "CHR ''#'' \<in> set ?v" by simp
    with ch show False by blast
  qed
  from ch have "re_sub_ws (?v @ []) = ?v @ re_sub_ws []"
    by (intro re_sub_ws_nospace) blast
  then have 5: "re_sub_ws ?v = ?v" by simp
  show ?thesis
    unfolding sanitize_ref_string_def Let_def 1 2 using 3 4 5 by simp
qed

lemma REF_RE_match_kind_id:
  assumes "is_kind kind" "is_local_id lid"
  shows "REF_RE_match (kind @ ''/'' @ lid) = Some (kind, lid)"
proof -
  let ?v = "kind @ ''/'' @ lid"
  from kind_id_chars[OF assms] have "CHR '':'' \<notin> set ?v" by blast
  with match_base_colon have mb: "match_base ?v = None"
    by (cases "match_base ?v") blast+
  from assms(1) obtain c cs where k: "kind = c # cs" "is_alpha c" "cs \<noteq> []" "\<forall>x\<in>set cs. is_alnum x"
    by (cases kind) (auto simp: is_kind_def list_all_iff)
  from assms(2) have l: "lid \<noteq> []" "length lid \<le> 64" "\<forall>x\<in>set lid. is_idchar x"
    by (simp_all add: is_local_id_def list_all_iff)
  from k(4) have tw: "takeWhile is_alnum (cs @ CHR ''/'' # lid) = cs"
    by (simp add: takeWhile_tail not_alnum_slash)
  from k(4) have dw: "dropWhile is_alnum (cs @ CHR ''/'' # lid) = CHR ''/'' # lid"
    by (simp add: dropWhile_append3 not_alnum_slash)
  from l(3) have tl: "takeWhile is_idchar lid = lid" "dropWhile is_idchar lid = []"
    by simp_all
  have "match_groups ?v = Some (kind, lid)"
    using k(1-3) l(1,2)
    by (simp add: match_groups_def plus_class_def lit_def tw dw tl)
  with mb show ?thesis by (simp add: REF_RE_match_def)
qed

section \<open>After the assignment pass nothing raises\<close>

lemma rewrite_entry_total:
  assumes "entry_resource e = JObj res"
  shows "\<exists>e' n' U'. rewrite_entry gen ix (JObj e) n U = Inr (e', n', U')"
  using assms by (simp add: rewrite_entry_def Let_def case_prod_beta del: rewrite_references.simps)

lemma rewrite_loop_total:
  assumes "\<forall>x\<in>set es. \<exists>e res. x = JObj e \<and> entry_resource e = JObj res"
  shows "\<exists>es' n' U'. rewrite_loop gen ix es n U = Inr (es', n', U')"
  using assms
proof (induction es arbitrary: n U)
  case Nil
  then show ?case by simp
next
  case (Cons a es)
  then obtain e res where a: "a = JObj e" "entry_resource e = JObj res" by auto
  from rewrite_entry_total[OF a(2)] obtain e' n1 U1 where
    r: "rewrite_entry gen ix (JObj e) n U = Inr (e', n1, U1)" by blast
  from Cons.prems have "\<forall>x\<in>set es. \<exists>e res. x = JObj e \<and> entry_resource e = JObj res" by simp
  from Cons.IH[OF this] obtain es' n' U' where
    "rewrite_loop gen ix es n1 U1 = Inr (es', n', U')" by blast
  with r a show ?case by simp
qed

lemma collect_loop_result_shape:
  assumes "collect_loop gen es ix n = Inr (es', ix', n')"
  shows "\<forall>x\<in>set es'. \<exists>e res. x = JObj e \<and> entry_resource e = JObj res"
proof
  fix x assume "x \<in> set es'"
  then obtain i where i: "i < length es'" "x = es' ! i" by (auto simp: in_set_conv_nth)
  with collect_loop_shape[OF assms] obtain e res where
    "es ! i = JObj e" "entry_resource e = JObj res"
    "es' ! i = JObj (setdefault ''_generated_uuid'' (JStr (gen (n + i))) e)"
    by (metis (no_types, lifting))
  with i show "\<exists>e res. x = JObj e \<and> entry_resource e = JObj res"
    by (auto simp: entry_resource_setdefault)
qed

lemma py_iter_store_entries:
  assumes it: "py_iter (bundle_entries b0) = Inr es0"
    and cl: "collect_loop gen es0 ix0 n0 = Inr (es1, ix, n)"
  shows "py_iter (bundle_entries (store_entries es1 b0)) = Inr es1"
proof (cases "map_of b0 ''entry''")
  case None
  with it have "es0 = []" by (simp add: bundle_entries_def)
  with cl have "es1 = []" by simp
  with None show ?thesis by (simp add: store_entries_def bundle_entries_def)
next
  case (Some w)
  with it have w: "py_iter w = Inr es0" by (simp add: bundle_entries_def)
  note sh = collect_loop_shape[OF cl]
  show ?thesis
  proof (cases w)
    case (JArr xs)
    with Some show ?thesis by (simp add: store_entries_def bundle_entries_def update_conv')
  next
    case (JObj kvs)
    have "kvs = []"
    proof (rule ccontr)
      assume "kvs \<noteq> []"
      with w JObj have "0 < length es0" "es0 ! 0 = JStr (fst (kvs ! 0))" by (auto simp: nth_map)
      with sh obtain e where "JStr (fst (kvs ! 0)) = JObj e" by fastforce
      then show False by simp
    qed
    with w JObj have "es0 = []" by simp
    with cl have "es1 = []" by simp
    with Some JObj \<open>kvs = []\<close> show ?thesis by (simp add: store_entries_def bundle_entries_def)
  next
    case (JStr t)
    have "t = []"
    proof (rule ccontr)
      assume "t \<noteq> []"
      with w JStr have "0 < length es0" "es0 ! 0 = JStr [t ! 0]" by (auto simp: nth_map)
      with sh obtain e where "JStr [t ! 0] = JObj e" by fastforce
      then show False by simp
    qed
    with w JStr have "es0 = []" by simp
    with cl have "es1 = []" by simp
    with Some JStr \<open>t = []\<close> show ?thesis by (simp add: store_entries_def bundle_entries_def)
  qed (use w in auto)
qed

lemma transform_bundle_total:
  assumes c: "collect_uuid_map gen (assign_bundle_id (gen 0) bundle) 1 = Inr (b1, ix, n)"
  shows "\<exists>r. transform_bundle gen bundle = Inr r"
proof -
  let ?b0 = "assign_bundle_id (gen 0) bundle"
  from c obtain es0 es1 where
    it: "py_iter (bundle_entries ?b0) = Inr es0" and
    cl: "collect_loop gen es0 empty_indices 1 = Inr (es1, ix, n)" and
    b1: "b1 = store_entries es1 ?b0"
    by (auto simp: collect_uuid_map_def split: sum.splits)
  from py_iter_store_entries[OF it cl] b1 have it1: "py_iter (bundle_entries b1) = Inr es1" by simp
  from rewrite_loop_total[OF collect_loop_result_shape[OF cl]] obtain es2 n' U where
    l: "rewrite_loop gen ix es1 n {} = Inr (es2, n', U)" by blast
  from c it1 l show ?thesis
    by (simp add: transform_bundle_def Let_def case_prod_beta del: rewrite_references.simps)
qed

lemma run_indices_collect_iter:
  assumes c: "collect_uuid_map gen (assign_bundle_id (gen 0) bundle) 1 = Inr (b1, ix, n)"
    and es: "py_iter (bundle_entries bundle) = Inr es"
  shows "\<exists>es1. collect_loop gen es empty_indices 1 = Inr (es1, ix, n) \<and> run_indices gen bundle = ix"
proof -
  have "bundle_entries (assign_bundle_id (gen 0) bundle) = bundle_entries bundle"
    by (simp add: bundle_entries_def map_of_assign_bundle_id)
  with c es show ?thesis
    by (auto simp: collect_uuid_map_def run_indices_def split: sum.splits)
qed

section \<open>Unresolved references\<close>

text \<open>
  C5. Let the assignment pass have returned, and let a field \<^verbatim>\<open>reference\<close> (anywhere
  outside the identity fields that the transform replaces) hold a string of the form
  \<^verbatim>\<open>Kind/local-identity\<close> under which no entry is registered, neither as kind and
  identity nor as prior locator. Then the run returns: nothing in the handling of the
  unresolved reference raises. In the returned document the field holds the same string,
  the string is in the unresolved set, and the warning written to the error stream is
  there and is a function of that set alone, so it changes nothing in the document.
\<close>

theorem unresolved_accounting:
  assumes pass1: "collect_uuid_map gen (assign_bundle_id (gen 0) bundle) 1 = Inr (b1, ix, n)"
    and es: "py_iter (bundle_entries bundle) = Inr es"
    and g: "jget (JObj bundle) (p @ [Key ''reference'']) = Some (JStr (kind @ ''/'' @ lid))"
    and nr: "\<not> replaced p"
    and form: "is_kind kind" "is_local_id lid"
    and norec: "\<forall>i<length es. entry_key (es ! i) \<noteq> Some (kind @ ''/'' @ lid)"
    and noloc: "\<forall>i<length es. entry_locator (es ! i) \<noteq> Some (kind @ ''/'' @ lid)"
  shows "\<exists>r. transform_bundle gen bundle = Inr r \<and>
           jget (doc r) (relocate p @ [Key ''reference'']) = Some (JStr (kind @ ''/'' @ lid)) \<and>
           kind @ ''/'' @ lid \<in> unknown_refs r \<and>
           stderr r = warning (unknown_refs r) \<and> stderr r \<noteq> None"
proof -
  let ?v = "kind @ ''/'' @ lid"
  from transform_bundle_total[OF pass1] obtain r where ok: "transform_bundle gen bundle = Inr r"
    by blast
  from run_indices_collect_iter[OF pass1 es] obtain es1 where
    cl: "collect_loop gen es empty_indices 1 = Inr (es1, ix, n)" and ri: "run_indices gen bundle = ix"
    by blast
  have sv: "sanitize_ref_string ?v = ?v" using form by (rule sanitize_kind_id)
  have m: "REF_RE_match (sanitize_ref_string ?v) = Some (kind, lid)"
    unfolding sv using form by (rule REF_RE_match_kind_id)
  have bf: "by_fullurl ix (sanitize_ref_string ?v) = None"
    unfolding sv using collect_loop_fullurl_none[OF cl noloc] by (simp add: empty_indices_def)
  from collect_loop_typeid_none[OF cl norec]
  have bt: "by_typeid_str ix ?v = None" by (simp add: empty_indices_def)
  from map_reference_by_key[where bf = "by_fullurl ix" and bt = "by_typeid_str ix", OF m bf] bt
  have mr: "map_reference ?v (by_fullurl (run_indices gen bundle))
      (by_typeid_str (run_indices gen bundle)) = None"
    by (simp add: ri)
  from transform_field_unresolved[OF ok g nr mr]
  have f: "jget (doc r) (relocate p @ [Key ''reference'']) = Some (JStr ?v)" "?v \<in> unknown_refs r"
    by blast+
  from ok have st: "stderr r = warning (unknown_refs r)" by (rule transform_bundle_Inr)
  from f(2) have "warning (unknown_refs r) \<noteq> None" by (auto simp: warning_def)
  with ok f st show ?thesis by auto
qed

theorem unresolved_accounting_witness:
  "field_after demo_gen sample_bundle
     [Key ''entry'', Idx 0, Key ''resource'', Key ''basedOn'', Idx 0, Key ''reference'']
     = Some (JStr ''ServiceRequest/zz'') \<and>
   (\<exists>r. transform_bundle demo_gen sample_bundle = Inr r \<and>
        ''ServiceRequest/zz'' \<in> unknown_refs r \<and> stderr r \<noteq> None)"
proof -
  have "case collect_uuid_map demo_gen (assign_bundle_id (demo_gen 0) sample_bundle) 1 of
          Inr x \<Rightarrow> True | Inl e \<Rightarrow> False"
    by code_simp
  then obtain b1 ix n where
    pass1: "collect_uuid_map demo_gen (assign_bundle_id (demo_gen 0) sample_bundle) 1 = Inr (b1, ix, n)"
    by (auto split: sum.splits)
  have es: "py_iter (bundle_entries sample_bundle) = Inr sample_entries"
    by (simp add: sample_bundle_def bundle_entries_def)
  have g: "jget (JObj sample_bundle)
      ([Key ''entry'', Idx 0, Key ''resource'', Key ''basedOn'', Idx 0] @ [Key ''reference''])
      = Some (JStr (''ServiceRequest'' @ ''/'' @ ''zz''))"
    by code_simp
  have nr: "\<not> replaced [Key ''entry'', Idx 0, Key ''resource'', Key ''basedOn'', Idx 0]"
    by simp
  have form: "is_kind ''ServiceRequest''" "is_local_id ''zz''"
    by code_simp+
  have "list_all (\<lambda>e. entry_key e \<noteq> Some (''ServiceRequest'' @ ''/'' @ ''zz'')) sample_entries"
    by code_simp
  then have norec: "\<forall>i<length sample_entries.
      entry_key (sample_entries ! i) \<noteq> Some (''ServiceRequest'' @ ''/'' @ ''zz'')"
    by (rule list_all_nth)
  have "list_all (\<lambda>e. entry_locator e \<noteq> Some (''ServiceRequest'' @ ''/'' @ ''zz'')) sample_entries"
    by code_simp
  then have noloc: "\<forall>i<length sample_entries.
      entry_locator (sample_entries ! i) \<noteq> Some (''ServiceRequest'' @ ''/'' @ ''zz'')"
    by (rule list_all_nth)
  from unresolved_accounting [OF pass1 es g nr form norec noloc]
  show ?thesis by (auto simp: field_after_def)
qed

section \<open>References of the absolute form\<close>

text \<open>
  C3, as the code has it. Take a string \<open>v\<close> stored under \<^verbatim>\<open>reference\<close> (outside the
  identity fields that the transform replaces) whose sanitized form matches the pattern
  with its base present, that is \<^verbatim>\<open>http://\<close> or \<^verbatim>\<open>https://\<close>, a host, exactly one
  further path segment, and then \<^verbatim>\<open>Kind/local-identity\<close>. If entry \<open>j\<close> is the last entry
  whose record has that kind and local identity and, in case some entry has the
  sanitized \<open>v\<close> as its prior locator, entry \<open>j\<close> is the last entry with that locator,
  then the field holds after the transform the canonical encoding of the identifier
  drawn for entry \<open>j\<close> in the assignment pass. If no entry is registered under that kind
  and identity and no entry has the sanitized \<open>v\<close> as its prior locator, the field still
  holds \<open>v\<close>, which is not a canonical encoding, and \<open>v\<close> is in the unresolved set.
\<close>

theorem absolute_reference_resolution:
  assumes ok: "transform_bundle gen bundle = Inr r"
    and uuid: "\<forall>n. is_uuid4 (gen n)"
    and es: "map_of bundle ''entry'' = Some (JArr es)"
    and g: "jget (JObj bundle) (p @ [Key ''reference'']) = Some (JStr v)"
    and nr: "\<not> replaced p"
    and base: "match_base (sanitize_ref_string v) = Some rest"
    and grp: "match_groups rest = Some (kind, lid)"
  shows "(j < length es \<and> has_kind_id (es ! j) kind lid \<and>
            (\<forall>i<length es. j < i \<longrightarrow> entry_key (es ! i) \<noteq> Some (kind @ ''/'' @ lid)) \<and>
            (\<forall>i<length es. entry_locator (es ! i) = Some (sanitize_ref_string v) \<longrightarrow>
               i \<le> j \<and> entry_locator (es ! j) = Some (sanitize_ref_string v)) \<longrightarrow>
          jget (doc r) (relocate p @ [Key ''reference'']) = Some (JStr (to_urn (JStr (gen (Suc j)))))) \<and>
         ((\<forall>i<length es. entry_key (es ! i) \<noteq> Some (kind @ ''/'' @ lid)) \<and>
          (\<forall>i<length es. entry_locator (es ! i) \<noteq> Some (sanitize_ref_string v)) \<longrightarrow>
          jget (doc r) (relocate p @ [Key ''reference'']) = Some (JStr v) \<and>
          \<not> startswith v URN_PREFIX \<and> v \<in> unknown_refs r)"
proof (intro conjI impI)
  let ?ix = "run_indices gen bundle"
  from base grp have m: "REF_RE_match (sanitize_ref_string v) = Some (kind, lid)"
    by (simp add: REF_RE_match_def)
  from run_indices_collect[OF ok es] obtain es1 n where
    cl: "collect_loop gen es empty_indices 1 = Inr (es1, ?ix, n)" by blast
  {
    assume a: "j < length es \<and> has_kind_id (es ! j) kind lid \<and>
            (\<forall>i<length es. j < i \<longrightarrow> entry_key (es ! i) \<noteq> Some (kind @ ''/'' @ lid)) \<and>
            (\<forall>i<length es. entry_locator (es ! i) = Some (sanitize_ref_string v) \<longrightarrow>
               i \<le> j \<and> entry_locator (es ! j) = Some (sanitize_ref_string v))"
    then have j: "j < length es" "has_kind_id (es ! j) kind lid"
      and last: "\<forall>i<length es. j < i \<longrightarrow> entry_key (es ! i) \<noteq> Some (kind @ ''/'' @ lid)"
      and loc: "\<forall>i<length es. entry_locator (es ! i) = Some (sanitize_ref_string v) \<longrightarrow>
               i \<le> j \<and> entry_locator (es ! j) = Some (sanitize_ref_string v)"
      by blast+
    from cl m j last loc
    have 1: "map_reference v (by_fullurl ?ix) (by_typeid_str ?ix) = Some (to_urn (JStr (gen (Suc j))))"
      by (rule map_reference_last_record)
    from uuid have "is_uuid4 (gen (Suc j))" by simp
    then have 2: "map_reference (to_urn (JStr (gen (Suc j)))) (by_fullurl ?ix) (by_typeid_str ?ix)
        = Some (to_urn (JStr (gen (Suc j))))"
      by (rule map_reference_urn_uuid)
    from transform_field_resolved[OF ok g nr 1 2]
    show "jget (doc r) (relocate p @ [Key ''reference'']) = Some (JStr (to_urn (JStr (gen (Suc j)))))" .
  }
  {
    assume b: "(\<forall>i<length es. entry_key (es ! i) \<noteq> Some (kind @ ''/'' @ lid)) \<and>
          (\<forall>i<length es. entry_locator (es ! i) \<noteq> Some (sanitize_ref_string v))"
    then have a: "\<forall>i<length es. entry_key (es ! i) \<noteq> Some (kind @ ''/'' @ lid)"
      and loc: "\<forall>i<length es. entry_locator (es ! i) \<noteq> Some (sanitize_ref_string v)"
      by blast+
    from collect_loop_fullurl_none[OF cl loc]
    have bf: "by_fullurl ?ix (sanitize_ref_string v) = None" by (simp add: empty_indices_def)
    note mk = map_reference_by_key[where bf = "by_fullurl ?ix" and bt = "by_typeid_str ?ix", OF m bf]
    from collect_loop_typeid_none[OF cl a]
    have "by_typeid_str ?ix (kind @ ''/'' @ lid) = None" by (simp add: empty_indices_def)
    with mk have mr: "map_reference v (by_fullurl ?ix) (by_typeid_str ?ix) = None" by simp
    from transform_field_unresolved[OF ok g nr mr]
    show "jget (doc r) (relocate p @ [Key ''reference'']) = Some (JStr v)" "v \<in> unknown_refs r"
      by blast+
    from map_reference_None_not_marked[OF mr] show "\<not> startswith v URN_PREFIX" by blast
  }
qed

theorem absolute_reference_resolution_witness:
  "field_after demo_gen sample_bundle
     [Key ''entry'', Idx 0, Key ''resource'', Key ''performer'', Idx 0, Key ''reference'']
     = Some (JStr ''urn:uuid:3d3d3d3d-3333-4333-b333-333333333333'') \<and>
   field_after demo_gen located_bundle
     [Key ''entry'', Idx 0, Key ''resource'', Key ''subject'', Key ''reference'']
     = Some (JStr ''urn:uuid:2c2c2c2c-2222-4222-a222-222222222222'') \<and>
   field_after demo_gen sample_bundle
     [Key ''entry'', Idx 0, Key ''resource'', Key ''specimen'', Key ''reference'']
     = Some (JStr ''https://example.org/fhir/Specimen/zz'') \<and>
   (\<exists>r. transform_bundle demo_gen sample_bundle = Inr r \<and>
        ''https://example.org/fhir/Specimen/zz'' \<in> unknown_refs r)"
proof -
  have "case transform_bundle demo_gen sample_bundle of Inr r \<Rightarrow> True | Inl e \<Rightarrow> False"
    by code_simp
  then obtain r where ok: "transform_bundle demo_gen sample_bundle = Inr r"
    by (auto split: sum.splits)
  have es: "map_of sample_bundle ''entry'' = Some (JArr sample_entries)"
    by (simp add: sample_bundle_def)
  have g1: "jget (JObj sample_bundle)
      ([Key ''entry'', Idx 0, Key ''resource'', Key ''performer'', Idx 0] @ [Key ''reference''])
      = Some (JStr ''https://example.org/fhir/Practitioner/d1'')"
    by code_simp
  have nr1: "\<not> replaced [Key ''entry'', Idx 0, Key ''resource'', Key ''performer'', Idx 0]"
    by simp
  have base1: "match_base (sanitize_ref_string ''https://example.org/fhir/Practitioner/d1'')
      = Some ''Practitioner/d1''"
    by code_simp
  have grp1: "match_groups ''Practitioner/d1'' = Some (''Practitioner'', ''d1'')"
    by code_simp
  have "list_all (\<lambda>e. entry_locator e \<noteq>
      Some (sanitize_ref_string ''https://example.org/fhir/Practitioner/d1'')) sample_entries"
    by code_simp
  then have loc1: "\<forall>i<length sample_entries. entry_locator (sample_entries ! i) =
      Some (sanitize_ref_string ''https://example.org/fhir/Practitioner/d1'') \<longrightarrow>
      i \<le> 2 \<and> entry_locator (sample_entries ! 2) =
        Some (sanitize_ref_string ''https://example.org/fhir/Practitioner/d1'')"
    by (rule locator_none_last)
  have j: "2 < length sample_entries" "has_kind_id (sample_entries ! 2) ''Practitioner'' ''d1''"
    by code_simp+
  have last: "\<forall>i<length sample_entries. 2 < i \<longrightarrow>
      entry_key (sample_entries ! i) \<noteq> Some (''Practitioner'' @ ''/'' @ ''d1'')"
    by (simp add: sample_entries_def)
  from absolute_reference_resolution [OF ok demo_gen_uuid4 es g1 nr1 base1 grp1, of 2] j last loc1
  have a: "jget (doc r) [Key ''entry'', Idx 0, Key ''resource'', Key ''performer'', Idx 0,
      Key ''reference''] = Some (JStr (to_urn (JStr (demo_gen 3))))"
    by (simp add: eval_nat_numeral)
  have u3: "to_urn (JStr (demo_gen 3)) = ''urn:uuid:3d3d3d3d-3333-4333-b333-333333333333''"
    by code_simp
  have g2: "jget (JObj sample_bundle)
      ([Key ''entry'', Idx 0, Key ''resource'', Key ''specimen''] @ [Key ''reference''])
      = Some (JStr ''https://example.org/fhir/Specimen/zz'')"
    by code_simp
  have nr2: "\<not> replaced [Key ''entry'', Idx 0, Key ''resource'', Key ''specimen'']"
    by simp
  have base2: "match_base (sanitize_ref_string ''https://example.org/fhir/Specimen/zz'')
      = Some ''Specimen/zz''"
    by code_simp
  have grp2: "match_groups ''Specimen/zz'' = Some (''Specimen'', ''zz'')"
    by code_simp
  have "list_all (\<lambda>e. entry_locator e \<noteq>
      Some (sanitize_ref_string ''https://example.org/fhir/Specimen/zz'')) sample_entries"
    by code_simp
  then have loc2: "\<forall>i<length sample_entries. entry_locator (sample_entries ! i) \<noteq>
      Some (sanitize_ref_string ''https://example.org/fhir/Specimen/zz'')"
    by (rule list_all_nth)
  have "list_all (\<lambda>e. entry_key e \<noteq> Some (''Specimen'' @ ''/'' @ ''zz'')) sample_entries"
    by code_simp
  then have none: "\<forall>i<length sample_entries.
      entry_key (sample_entries ! i) \<noteq> Some (''Specimen'' @ ''/'' @ ''zz'')"
    by (rule list_all_nth)
  from absolute_reference_resolution [OF ok demo_gen_uuid4 es g2 nr2 base2 grp2, of 0] none loc2
  have b: "jget (doc r) [Key ''entry'', Idx 0, Key ''resource'', Key ''specimen'',
      Key ''reference''] = Some (JStr ''https://example.org/fhir/Specimen/zz'')"
    "''https://example.org/fhir/Specimen/zz'' \<in> unknown_refs r"
    by simp_all
  have "case transform_bundle demo_gen located_bundle of Inr r \<Rightarrow> True | Inl e \<Rightarrow> False"
    by code_simp
  then obtain r' where ok': "transform_bundle demo_gen located_bundle = Inr r'"
    by (auto split: sum.splits)
  have es': "map_of located_bundle ''entry'' = Some (JArr located_entries)"
    by (simp add: located_bundle_def)
  have g3: "jget (JObj located_bundle)
      ([Key ''entry'', Idx 0, Key ''resource'', Key ''subject''] @ [Key ''reference''])
      = Some (JStr ''https://example.org/fhir/Patient/p1'')"
    by code_simp
  have nr3: "\<not> replaced [Key ''entry'', Idx 0, Key ''resource'', Key ''subject'']"
    by simp
  have base3: "match_base (sanitize_ref_string ''https://example.org/fhir/Patient/p1'')
      = Some ''Patient/p1''"
    by code_simp
  have grp3: "match_groups ''Patient/p1'' = Some (''Patient'', ''p1'')"
    by code_simp
  have j3: "1 < length located_entries" "has_kind_id (located_entries ! 1) ''Patient'' ''p1''"
    by code_simp+
  have "list_all (\<lambda>e. entry_key e \<noteq> Some (''Patient'' @ ''/'' @ ''p1''))
      (drop (Suc 1) located_entries)"
    by code_simp
  then have last3: "\<forall>i<length located_entries. 1 < i \<longrightarrow>
      entry_key (located_entries ! i) \<noteq> Some (''Patient'' @ ''/'' @ ''p1'')"
    by (rule list_all_drop_nth)
  have own: "entry_locator (located_entries ! 1) =
      Some (sanitize_ref_string ''https://example.org/fhir/Patient/p1'')"
    by code_simp
  have "list_all (\<lambda>e. entry_locator e \<noteq>
      Some (sanitize_ref_string ''https://example.org/fhir/Patient/p1'')) (drop (Suc 1) located_entries)"
    by code_simp
  with own have loc3: "\<forall>i<length located_entries. entry_locator (located_entries ! i) =
      Some (sanitize_ref_string ''https://example.org/fhir/Patient/p1'') \<longrightarrow>
      i \<le> 1 \<and> entry_locator (located_entries ! 1) =
        Some (sanitize_ref_string ''https://example.org/fhir/Patient/p1'')"
    by (rule locator_own_last)
  from absolute_reference_resolution [OF ok' demo_gen_uuid4 es' g3 nr3 base3 grp3, of 1] j3 last3 loc3
  have c: "jget (doc r') [Key ''entry'', Idx 0, Key ''resource'', Key ''subject'',
      Key ''reference''] = Some (JStr (to_urn (JStr (demo_gen 2))))"
    by (simp add: eval_nat_numeral)
  have u2: "to_urn (JStr (demo_gen 2)) = ''urn:uuid:2c2c2c2c-2222-4222-a222-222222222222''"
    by code_simp
  from a b c u2 u3 ok ok' show ?thesis by (auto simp: field_after_def)
qed

text \<open>
  The claim for every absolute URL that ends in \<^verbatim>\<open>Kind/local-identity\<close> fails: the
  pattern takes one path segment between the host and the kind. In \<open>deep_base_bundle\<close>
  the reference goes through the base \<^verbatim>\<open>https://example.org/fhir/r4/\<close>, the patient it
  names is in the bundle, and the transform leaves the reference as it is. And the prior
  locators come first: in \<open>diverted_bundle\<close> the reference to the patient \<^verbatim>\<open>p1\<close>, who is
  the third entry, gets the identifier of the second entry, which has that locator; and
  the reference to the practitioner \<^verbatim>\<open>d9\<close>, whom no entry holds, gets the identifier of
  the first entry, which has that locator.
\<close>

theorem absolute_reference_resolution_counterexample:
  "has_kind_id (deep_base_entries ! 1) ''Patient'' ''p1'' \<and>
   field_after demo_gen deep_base_bundle
     [Key ''entry'', Idx 0, Key ''resource'', Key ''subject'', Key ''reference'']
     = Some (JStr ''https://example.org/fhir/r4/Patient/p1'') \<and>
   field_after demo_gen deep_base_bundle [Key ''entry'', Idx 1, Key ''fullUrl'']
     = Some (JStr ''urn:uuid:2c2c2c2c-2222-4222-a222-222222222222'') \<and>
   REF_RE_match (sanitize_ref_string ''https://example.org/fhir/r4/Patient/p1'') = None \<and>
   has_kind_id (diverted_entries ! 2) ''Patient'' ''p1'' \<and>
   field_after demo_gen diverted_bundle
     [Key ''entry'', Idx 0, Key ''resource'', Key ''subject'', Key ''reference'']
     = Some (JStr ''urn:uuid:2c2c2c2c-2222-4222-a222-222222222222'') \<and>
   field_after demo_gen diverted_bundle [Key ''entry'', Idx 2, Key ''fullUrl'']
     = Some (JStr ''urn:uuid:3d3d3d3d-3333-4333-b333-333333333333'') \<and>
   list_all (\<lambda>e. entry_key e \<noteq> Some ''Practitioner/d9'') diverted_entries \<and>
   field_after demo_gen diverted_bundle
     [Key ''entry'', Idx 0, Key ''resource'', Key ''performer'', Idx 0, Key ''reference'']
     = Some (JStr ''urn:uuid:1b1b1b1b-1111-4111-9111-111111111111'')"
  by code_simp

section \<open>The identity of an entry\<close>

text \<open>
  An entry that does not carry the stash key when it comes in gets the identifier drawn
  for it in the assignment pass: its locator is the canonical encoding of that
  identifier and the id of its resource is the identifier.
\<close>

lemma fresh_identity_assigned:
  assumes ok: "transform_bundle gen bundle = Inr r"
    and uuid: "\<forall>n. is_uuid4 (gen n)"
    and es: "map_of bundle ''entry'' = Some (JArr es)"
    and i: "i < length es" "es ! i = JObj e"
    and fresh: "map_of e ''_generated_uuid'' = None"
  shows "jget (doc r) [Key ''entry'', Idx i, Key ''fullUrl''] = Some (JStr (to_urn (JStr (gen (Suc i)))))"
    and "map_of e ''resource'' \<noteq> None \<Longrightarrow>
         jget (doc r) [Key ''entry'', Idx i, Key ''resource'', Key ''id''] = Some (JStr (gen (Suc i)))"
proof -
  let ?b0 = "assign_bundle_id (gen 0) bundle"
  from ok obtain b1 ix n es1 es2 n' U where
    c: "collect_uuid_map gen ?b0 1 = Inr (b1, ix, n)" and
    it: "py_iter (bundle_entries b1) = Inr es1" and
    l: "rewrite_loop gen ix es1 n {} = Inr (es2, n', U)" and
    d: "doc r = map_refs (resolve (by_fullurl ix) (by_typeid_str ix)) (JObj (store_entries es2 b1))"
    by (rule transform_bundle_Inr)
  let ?R = "resolve (by_fullurl ix) (by_typeid_str ix)"
  from es have w0: "map_of ?b0 ''entry'' = Some (JArr es)" by (simp add: map_of_assign_bundle_id)
  from i have gi: "jget (JArr es) (Idx i # []) = Some (es ! i)" by simp
  from collect_uuid_map_entries[OF c w0 gi] obtain es1' where
    cl: "collect_loop gen es empty_indices 1 = Inr (es1', ix, n)" and
    b1: "b1 = AList.update ''entry'' (JArr es1') ?b0"
    by blast
  from b1 it have es1: "es1 = es1'" by (simp add: bundle_entries_def update_conv')
  from collect_loop_shape[OF cl] i obtain res where
    e1: "es1' ! i = JObj (setdefault ''_generated_uuid'' (JStr (gen (Suc i))) e)"
    and res: "entry_resource e = JObj res" and len1: "length es1' = length es"
    by fastforce
  let ?e1 = "setdefault ''_generated_uuid'' (JStr (gen (Suc i))) e"
  from fresh have stash: "dict_get ?e1 ''_generated_uuid'' = JStr (gen (Suc i))"
    by (simp add: setdefault_def dict_get_def dom_def map_add_def)
  from uuid uuid4_last have ne: "gen (Suc i) \<noteq> []" by blast
  from rewrite_loop_pointwise[OF l] es1 len1 i(1) obtain ni Ui ni' Ui' where
    re: "rewrite_entry gen ix (es1' ! i) ni Ui = Inr (es2 ! i, ni', Ui')" and
    len2: "length es2 = length es"
    by (metis (no_types, lifting))
  let ?nu = "JStr (gen (Suc i))"
  let ?res3 = "fst (rewrite_references (JObj (add_identifier (AList.update ''id'' ?nu res) (to_urn ?nu)))
      (by_fullurl ix) (by_typeid_str ix) Ui)"
  let ?e1' = "AList.update ''fullUrl'' (JStr (to_urn ?nu)) ?e1"
  have "rewrite_entry gen ix (JObj ?e1) ni Ui = Inr (JObj (AList.delete ''_generated_uuid''
      (if ''resource'' \<in> dom (map_of ?e1) then AList.update ''resource'' ?res3 ?e1' else ?e1')),
      ni, snd (rewrite_references (JObj (add_identifier (AList.update ''id'' ?nu res) (to_urn ?nu)))
      (by_fullurl ix) (by_typeid_str ix) Ui))"
    by (simp add: rewrite_entry_def Let_def case_prod_beta entry_resource_setdefault res stash ne
        del: rewrite_references.simps)
  with re e1
  have e2: "es2 ! i = JObj (AList.delete ''_generated_uuid''
      (if ''resource'' \<in> dom (map_of ?e1) then AList.update ''resource'' ?res3 ?e1' else ?e1'))"
    by simp
  have b4: "map_of (store_entries es2 b1) ''entry'' = Some (JArr es2)"
    using b1 by (simp add: store_entries_def update_conv')
  from e2 have "jget (es2 ! i) [Key ''fullUrl''] = Some (JStr (to_urn ?nu))"
    by (simp add: delete_conv' update_conv')
  with b4 i(1) len2
  have "jget (JObj (store_entries es2 b1)) [Key ''entry'', Idx i, Key ''fullUrl'']
      = Some (JStr (to_urn ?nu))" by simp
  then have "jget (map_refs ?R (JObj (store_entries es2 b1))) [Key ''entry'', Idx i, Key ''fullUrl'']
      = Some (JStr (to_urn ?nu))"
    by (rule jget_map_refs_other) simp
  with d show "jget (doc r) [Key ''entry'', Idx i, Key ''fullUrl'']
      = Some (JStr (to_urn (JStr (gen (Suc i)))))" by simp
  {
    assume "map_of e ''resource'' \<noteq> None"
    then have dom: "''resource'' \<in> dom (map_of ?e1)" by (auto simp: map_of_setdefault)
    have "?res3 = map_refs ?R (JObj (add_identifier (AList.update ''id'' ?nu res) (to_urn ?nu)))"
      by (rule rewrite_fst)
    moreover have "map_of (add_identifier (AList.update ''id'' ?nu res) (to_urn ?nu)) ''id'' = Some ?nu"
      by (auto simp: add_identifier_def Let_def update_conv' split: option.splits json.splits)
    ultimately have "jget ?res3 [Key ''id''] = Some ?nu"
      by (simp add: map_of_map_refs_items)
    with e2 dom have "jget (es2 ! i) [Key ''resource'', Key ''id''] = Some ?nu"
      by (simp add: delete_conv' update_conv' del: rewrite_references.simps)
    with b4 i(1) len2
    have "jget (JObj (store_entries es2 b1)) [Key ''entry'', Idx i, Key ''resource'', Key ''id'']
        = Some ?nu" by simp
    then have "jget (map_refs ?R (JObj (store_entries es2 b1)))
        [Key ''entry'', Idx i, Key ''resource'', Key ''id''] = Some ?nu"
      by (rule jget_map_refs_other) simp
    with d show "jget (doc r) [Key ''entry'', Idx i, Key ''resource'', Key ''id'']
        = Some (JStr (gen (Suc i)))" by simp
  }
qed

text \<open>
  C2 says this of every entry. The code does not do it for an entry that already has the
  key \<^verbatim>\<open>_generated_uuid\<close>: \<^verbatim>\<open>setdefault\<close> keeps the old value, and the second loop takes the
  identity of the entry from it. In \<open>stale_bundle\<close> the first entry comes out with the
  locator \<^verbatim>\<open>urn:uuid:stale\<close> and the id \<^verbatim>\<open>stale\<close>, while the reference to it in the second
  entry is rewritten to the identifier drawn in the assignment pass, which no entry
  bears.
\<close>

theorem stale_stash_reused:
  "jget (JObj stale_bundle) [Key ''entry'', Idx 0, Key ''_generated_uuid''] = Some (JStr ''stale'') \<and>
   to_urn (JStr (demo_gen 1)) = ''urn:uuid:1b1b1b1b-1111-4111-9111-111111111111'' \<and>
   field_after demo_gen stale_bundle [Key ''entry'', Idx 0, Key ''fullUrl'']
     = Some (JStr ''urn:uuid:stale'') \<and>
   field_after demo_gen stale_bundle [Key ''entry'', Idx 0, Key ''resource'', Key ''id'']
     = Some (JStr ''stale'') \<and>
   field_after demo_gen stale_bundle
     [Key ''entry'', Idx 1, Key ''resource'', Key ''subject'', Key ''reference'']
     = Some (JStr ''urn:uuid:1b1b1b1b-1111-4111-9111-111111111111'')"
  by code_simp

section \<open>References that are already canonical or local\<close>

text \<open>
  A reference that begins with \<^verbatim>\<open>urn:uuid:\<close> or \<^verbatim>\<open>#\<close> and does not end in whitespace or
  quote characters comes out of the transform as it went in.
\<close>

lemma map_reference_marked:
  assumes "v = URN_PREFIX @ rest \<or> v = ''#'' @ rest"
    and "strip_right is_quote (strip_right is_space rest) = rest"
  shows "map_reference v bf bt = Some v"
  using assms
  by (auto simp: map_reference_def Let_def sanitize_urn sanitize_hash startswith_def)

lemma marked_reference_kept:
  assumes ok: "transform_bundle gen bundle = Inr r"
    and g: "jget (JObj bundle) (p @ [Key ''reference'']) = Some (JStr v)"
    and nr: "\<not> replaced p"
    and v: "v = URN_PREFIX @ rest \<or> v = ''#'' @ rest"
    and clean: "strip_right is_quote (strip_right is_space rest) = rest"
  shows "jget (doc r) (relocate p @ [Key ''reference'']) = Some (JStr v)"
  using transform_field_resolved[OF ok g nr map_reference_marked[OF v clean] map_reference_marked[OF v clean]] .

text \<open>
  C4 says this of every reference that begins with \<^verbatim>\<open>urn:uuid:\<close> or \<^verbatim>\<open>#\<close>. The code
  writes back the sanitized string, so whitespace and quote characters at the end are
  cut: in \<open>marked_bundle\<close> the reference \<^verbatim>\<open>#p1\<close> followed by a space comes out without
  the space, and the canonical reference followed by a double quote without the quote.
\<close>

theorem marked_reference_trimmed:
  "jget (JObj marked_bundle) [Key ''entry'', Idx 0, Key ''resource'', Key ''subject'', Key ''reference'']
     = Some (JStr ''#p1 '') \<and>
   field_after demo_gen marked_bundle
     [Key ''entry'', Idx 0, Key ''resource'', Key ''subject'', Key ''reference'']
     = Some (JStr ''#p1'') \<and>
   jget (JObj marked_bundle) [Key ''entry'', Idx 0, Key ''resource'', Key ''device'', Key ''reference'']
     = Some (JStr (''urn:uuid:d0d0d0d0-0000-4000-8000-00000000000d'' @ [CHR 0x22])) \<and>
   field_after demo_gen marked_bundle
     [Key ''entry'', Idx 0, Key ''resource'', Key ''device'', Key ''reference'']
     = Some (JStr ''urn:uuid:d0d0d0d0-0000-4000-8000-00000000000d'')"
  by code_simp

end
